theory Spec2Isabelle
  imports Main "HOL-Library.Word" "HOL-Library.Signed_Division"
begin

section \<open>Data model of \<open>rowindex.c\<close>\<close>

text \<open>
  Machine integers are words: \<open>int32_t\<close> is \<open>32 word\<close>, \<open>int64_t\<close> is \<open>64 word\<close>;
  \<open>+\<close>, \<open>-\<close> and \<open>*\<close> wrap around, \<open>sint\<close> reads the two's complement value, and the
  signed comparisons of C are \<open><s\<close> and \<open>\<le>s\<close>. A widening cast is \<open>scast\<close>, a narrowing
  cast is \<open>ucast\<close> (it keeps the low bits).
\<close>

type_synonym int8_t = "8 word"
type_synonym int32_t = "32 word"
type_synonym int64_t = "64 word"

definition INT32_MAX :: int64_t where
  "INT32_MAX = 2147483647"

definition INT64_MAX :: int64_t where
  "INT64_MAX = 9223372036854775807"

text \<open>C's \<open>/\<close> on \<open>int64_t\<close>: the quotient truncated towards zero.\<close>

definition c_div :: "int64_t \<Rightarrow> int64_t \<Rightarrow> int64_t" where
  "c_div a b = word_of_int (sint a sdiv sint b)"

text \<open>
  Pointers are \<open>NULL\<close> or an address. The heap holds the allocated \<open>RowIndex\<close> headers and
  the allocated index arrays; an address is a position in the respective list, an
  allocation appends, so that a new address is never one already in use.
\<close>

datatype ptr = NULL | Ptr nat

datatype RowIndexType = RI_ARR32 | RI_ARR64 | RI_SLICE

datatype buffer = Ind32 "int32_t list" | Ind64 "int64_t list"

text \<open>
  Modelled from the spec: the struct \<open>RowIndex\<close> and the enum \<open>RowIndexType\<close> of
  \<open>rowindex.h\<close>, which is not part of the sources, with the fields that the code uses:
  \<open>type\<close>, \<open>length\<close>, \<open>min\<close>, \<open>max\<close> and an anonymous union. The union holds
  the pointer \<open>ind32\<close>/\<open>ind64\<close> (one address field, as the static assertion of the
  source says) or the pair \<open>slice.start\<close>, \<open>slice.step\<close>. \<open>Uninit\<close> is the union of a
  header that \<open>dtmalloc\<close> returned and nobody has written yet: its contents are
  indeterminate.
\<close>

datatype payload = Uninit | Ind ptr | Slice int64_t int64_t

record RowIndex =
  type_ri :: RowIndexType
  length_ri :: int64_t
  min_ri :: int64_t
  max_ri :: int64_t
  payload :: payload

record heap =
  hdrs :: "RowIndex list"
  bufs :: "buffer list"

text \<open>
  Modelled from the spec: \<open>dtmalloc\<close> and \<open>dtrealloc\<close> (macros of \<open>utils.h\<close>, not part
  of the sources) allocate and resize; allocation failure is not modelled. A function
  that dereferences an invalid or indeterminate pointer, or reads an array out of its
  bounds, has no defined behaviour: its model returns \<open>None\<close>. A returned \<open>NULL\<close> is
  the value \<open>Some (NULL, h)\<close>.
\<close>

definition alloc_hdr :: "heap \<Rightarrow> RowIndex \<Rightarrow> ptr \<times> heap" where
  "alloc_hdr h r = (Ptr (length (hdrs h)), h\<lparr>hdrs := hdrs h @ [r]\<rparr>)"

definition alloc_buf :: "heap \<Rightarrow> buffer \<Rightarrow> ptr \<times> heap" where
  "alloc_buf h b = (Ptr (length (bufs h)), h\<lparr>bufs := bufs h @ [b]\<rparr>)"

definition get_hdr :: "heap \<Rightarrow> ptr \<Rightarrow> RowIndex option" where
  "get_hdr h p = (case p of NULL \<Rightarrow> None
     | Ptr a \<Rightarrow> if a < length (hdrs h) then Some (hdrs h ! a) else None)"

definition get_buf :: "heap \<Rightarrow> payload \<Rightarrow> buffer option" where
  "get_buf h pl = (case pl of Ind (Ptr a) \<Rightarrow> if a < length (bufs h) then Some (bufs h ! a) else None
     | _ \<Rightarrow> None)"

text \<open>\<open>xs[k]\<close> for a C array of known extent.\<close>

definition at_list :: "'a list \<Rightarrow> int \<Rightarrow> 'a option" where
  "at_list xs k = (if 0 \<le> k \<and> k < int (length xs) then Some (xs ! nat k) else None)"

text \<open>\<open>ri->ind32[k]\<close> and \<open>ri->ind64[k]\<close>, for the union \<open>pl\<close> of \<open>ri\<close>.\<close>

definition at32 :: "heap \<Rightarrow> payload \<Rightarrow> int \<Rightarrow> int32_t option" where
  "at32 h pl k = (case get_buf h pl of Some (Ind32 xs) \<Rightarrow> at_list xs k | _ \<Rightarrow> None)"

definition at64 :: "heap \<Rightarrow> payload \<Rightarrow> int \<Rightarrow> int64_t option" where
  "at64 h pl k = (case get_buf h pl of Some (Ind64 xs) \<Rightarrow> at_list xs k | _ \<Rightarrow> None)"

text \<open>An \<open>int32_t\<close> element read into an \<open>int64_t\<close> variable.\<close>

definition at32w :: "heap \<Rightarrow> payload \<Rightarrow> int \<Rightarrow> int64_t option" where
  "at32w h pl k = map_option scast (at32 h pl k)"

section \<open>The iteration macro \<open>ITER_ALL\<close>\<close>

text \<open>
  The macro runs \<open>CODE\<close> once for every pair \<open>(i, j)\<close>; the model returns the pairs in
  the order of the visits, and each use of the macro folds its \<open>CODE\<close> over them. The
  loop counter \<open>i\<close> runs from 0 to \<open>nrows\<close> and cannot overflow; it is a \<open>nat\<close>. The
  first argument of the loops is the number of iterations left.
\<close>

primrec iter_slice :: "nat \<Rightarrow> nat \<Rightarrow> int64_t \<Rightarrow> int64_t \<Rightarrow> (nat \<times> int64_t) list" where
  "iter_slice 0 i j step = []"
| "iter_slice (Suc k) i j step = (i, j) # iter_slice k (Suc i) (j + step) step"

primrec iter_ind :: "(int \<Rightarrow> int64_t option) \<Rightarrow> nat \<Rightarrow> nat \<Rightarrow> (nat \<times> int64_t) list option" where
  "iter_ind rd 0 i = Some []"
| "iter_ind rd (Suc k) i = (case rd (int i) of None \<Rightarrow> None
     | Some j \<Rightarrow> map_option ((#) (i, j)) (iter_ind rd k (Suc i)))"

definition ITER_ALL :: "heap \<Rightarrow> RowIndex \<Rightarrow> (nat \<times> int64_t) list option" where
  "ITER_ALL h rowindex =
     (let nrows = nat (sint (length_ri rowindex)) in
      case type_ri rowindex of
        RI_SLICE \<Rightarrow> (case payload rowindex of
            Slice start step \<Rightarrow> Some (iter_slice nrows 0 start step)
          | _ \<Rightarrow> None)
      | RI_ARR32 \<Rightarrow> iter_ind (at32w h (payload rowindex)) nrows 0
      | RI_ARR64 \<Rightarrow> iter_ind (at64 h (payload rowindex)) nrows 0)"

text \<open>The source rows produced by iterating a RowIndex, in order.\<close>

definition elems :: "heap \<Rightarrow> RowIndex \<Rightarrow> int64_t list option" where
  "elems h r = map_option (map snd) (ITER_ALL h r)"

section \<open>\<open>rowindex_compactify\<close>\<close>

text \<open>
  The loop \<open>res[i] = (int32_t) src[i]\<close>, with the narrowed prefix accumulated. The
  32-bit array is written on top of the 64-bit one; slot \<open>i\<close> of the narrow array ends
  before slot \<open>i\<close> of the wide one does, so no element is overwritten before it is read,
  and the model keeps the two arrays apart. \<open>dtrealloc\<close> keeps the address.
\<close>

primrec compact_loop :: "int64_t list \<Rightarrow> nat \<Rightarrow> nat \<Rightarrow> int32_t list \<Rightarrow> int32_t list option" where
  "compact_loop src 0 i res = Some res"
| "compact_loop src (Suc k) i res = (case at_list src (int i) of None \<Rightarrow> None
     | Some x \<Rightarrow> compact_loop src k (Suc i) (res @ [ucast x]))"

definition rowindex_compactify :: "heap \<Rightarrow> ptr \<Rightarrow> (ptr \<times> heap) option" where
  "rowindex_compactify h self =
     (case self of NULL \<Rightarrow> None
      | Ptr s \<Rightarrow>
     (case get_hdr h self of None \<Rightarrow> None
      | Some r \<Rightarrow>
        if type_ri r \<noteq> RI_ARR64 \<or> INT32_MAX <s max_ri r \<or> INT32_MAX <s length_ri r
        then Some (NULL, h)
        else (let len = (ucast (length_ri r) :: int32_t) in
          case payload r of
            Ind NULL \<Rightarrow> (if 0 <s len then None
               else Some (self, h\<lparr>hdrs := (hdrs h)[s := r\<lparr>type_ri := RI_ARR32\<rparr>]\<rparr>))
          | Ind (Ptr a) \<Rightarrow>
             (case get_buf h (payload r) of
                Some (Ind64 src) \<Rightarrow>
                  (case compact_loop src (nat (sint len)) 0 [] of None \<Rightarrow> None
                   | Some res \<Rightarrow> Some (self,
                       h\<lparr>hdrs := (hdrs h)[s := r\<lparr>type_ri := RI_ARR32\<rparr>],
                         bufs := (bufs h)[a := Ind32 res]\<rparr>))
              | _ \<Rightarrow> None)
          | _ \<Rightarrow> None)))"

section \<open>\<open>rowindex_from_slice\<close>\<close>

definition rowindex_from_slice :: "heap \<Rightarrow> int64_t \<Rightarrow> int64_t \<Rightarrow> int64_t \<Rightarrow> ptr \<times> heap" where
  "rowindex_from_slice h start count step =
     (if start <s 0 \<or> count <s 0 \<or>
         (1 <s count \<and> step <s - (c_div start (count - 1))) \<or>
         (1 <s count \<and> c_div (INT64_MAX - start) (count - 1) <s step)
      then (NULL, h)
      else alloc_hdr h
        \<lparr>type_ri = RI_SLICE, length_ri = count,
         min_ri = (if count = 0 then 0 else if 0 \<le>s step then start
                   else start + step * (count - 1)),
         max_ri = (if count = 0 then 0 else if 0 \<le>s step then start + step * (count - 1)
                   else start),
         payload = Slice start step\<rparr>)"

section \<open>\<open>rowindex_merge\<close>\<close>

text \<open>
  One step of the gathering loops: store \<open>x\<close> in the next slot of the result and update
  the running minimum and maximum.
\<close>

definition gather_step :: "'a::len word \<Rightarrow> 'a word list \<times> 'a word \<times> 'a word
    \<Rightarrow> 'a word list \<times> 'a word \<times> 'a word" where
  "gather_step x acc = (case acc of (rows, mn, mx) \<Rightarrow>
     (rows @ [x], if x <s mn then x else mn, if mx <s x then x else mx))"

text \<open>
  \<open>for (i = 0, ic = start_bc; i < n; i++, ic += step_bc) { x = rowssrc[ic]; ... }\<close>,
  at element width 32 and 64.
\<close>

primrec gather_slice :: "(int \<Rightarrow> 'a::len word option) \<Rightarrow> nat \<Rightarrow> int64_t \<Rightarrow> int64_t
    \<Rightarrow> 'a word list \<times> 'a word \<times> 'a word \<Rightarrow> ('a word list \<times> 'a word \<times> 'a word) option" where
  "gather_slice rowssrc 0 ic step_bc acc = Some acc"
| "gather_slice rowssrc (Suc k) ic step_bc acc = (case rowssrc (sint ic) of None \<Rightarrow> None
     | Some x \<Rightarrow> gather_slice rowssrc k (ic + step_bc) step_bc (gather_step x acc))"

text \<open>
  \<open>for (i = 0; i < n; i++) { x = rows_ab[rows_bc[i]]; ... }\<close>, for the four
  combinations of element widths.
\<close>

primrec gather_ind :: "(int \<Rightarrow> 'a::len word option) \<Rightarrow> (int \<Rightarrow> int64_t option) \<Rightarrow> nat \<Rightarrow> nat
    \<Rightarrow> 'a word list \<times> 'a word \<times> 'a word \<Rightarrow> ('a word list \<times> 'a word \<times> 'a word) option" where
  "gather_ind rows_ab rows_bc 0 i acc = Some acc"
| "gather_ind rows_ab rows_bc (Suc k) i acc = (case rows_bc (int i) of None \<Rightarrow> None
     | Some b \<Rightarrow> (case rows_ab (sint b) of None \<Rightarrow> None
       | Some x \<Rightarrow> gather_ind rows_ab rows_bc k (Suc i) (gather_step x acc)))"

text \<open>\<open>for (i = 0; i < n; i++) rowsres[i] = start_ab + rows_bc[i] * step_ab;\<close>\<close>

primrec affine_loop :: "(int \<Rightarrow> int64_t option) \<Rightarrow> int64_t \<Rightarrow> int64_t \<Rightarrow> nat \<Rightarrow> nat
    \<Rightarrow> int64_t list \<Rightarrow> int64_t list option" where
  "affine_loop rows_bc start_ab step_ab 0 i rowsres = Some rowsres"
| "affine_loop rows_bc start_ab step_ab (Suc k) i rowsres = (case rows_bc (int i) of None \<Rightarrow> None
     | Some b \<Rightarrow> affine_loop rows_bc start_ab step_ab k (Suc i) (rowsres @ [start_ab + b * step_ab]))"

text \<open>
  The tail shared by the branches that build an ARR64 result: store the array and the
  header, then attempt to compactify; the value of \<open>rowindex_compactify\<close> is dropped and
  \<open>res\<close> is returned.
\<close>

definition finish_arr64 :: "heap \<Rightarrow> int64_t \<Rightarrow> int64_t list \<Rightarrow> int64_t \<Rightarrow> int64_t
    \<Rightarrow> (ptr \<times> heap) option" where
  "finish_arr64 h n rows mn mx =
     (let (p, h1) = alloc_buf h (Ind64 rows);
          (res, h2) = alloc_hdr h1
            \<lparr>type_ri = RI_ARR64, length_ri = n, min_ri = mn, max_ri = mx, payload = Ind p\<rparr>
      in case rowindex_compactify h2 res of None \<Rightarrow> None
         | Some (_, h3) \<Rightarrow> Some (res, h3))"

definition finish_arr32 :: "heap \<Rightarrow> int64_t \<Rightarrow> int32_t list \<Rightarrow> int32_t \<Rightarrow> int32_t
    \<Rightarrow> (ptr \<times> heap) option" where
  "finish_arr32 h n rows mn mx =
     (let (p, h1) = alloc_buf h (Ind32 rows)
      in Some (alloc_hdr h1
            \<lparr>type_ri = RI_ARR32, length_ri = n, min_ri = scast mn, max_ri = scast mx,
             payload = Ind p\<rparr>))"

text \<open>
  \<open>memcpy(dst, src, elemsize * n)\<close> between two index arrays of one element width.
  Both pointers must point to allocated arrays of at least \<open>n\<close> elements.
\<close>

definition memcpy_ind :: "heap \<Rightarrow> payload \<Rightarrow> payload \<Rightarrow> nat \<Rightarrow> heap option" where
  "memcpy_ind h dst src n =
     (case dst of
        Ind (Ptr d) \<Rightarrow>
          (case (get_buf h dst, get_buf h src) of
             (Some (Ind32 ds), Some (Ind32 ss)) \<Rightarrow>
               if n \<le> length ds \<and> n \<le> length ss
               then Some (h\<lparr>bufs := (bufs h)[d := Ind32 (take n ss @ drop n ds)]\<rparr>) else None
           | (Some (Ind64 ds), Some (Ind64 ss)) \<Rightarrow>
               if n \<le> length ds \<and> n \<le> length ss
               then Some (h\<lparr>bufs := (bufs h)[d := Ind64 (take n ss @ drop n ds)]\<rparr>) else None
           | _ \<Rightarrow> None)
      | _ \<Rightarrow> None)"

text \<open>\<open>case RI_SLICE\<close> of the switch on \<open>type_bc\<close>; \<open>ab\<close> is \<open>None\<close> when \<open>ri_ab\<close> is \<open>NULL\<close>.\<close>

definition merge_slice :: "heap \<Rightarrow> RowIndex option \<Rightarrow> RowIndex \<Rightarrow> (ptr \<times> heap) option" where
  "merge_slice h ab bc =
     (let n = length_ri bc in
      case payload bc of
        Slice start_bc step_bc \<Rightarrow>
          (case ab of
             None \<Rightarrow> Some (alloc_hdr h
               \<lparr>type_ri = RI_SLICE, length_ri = n, min_ri = min_ri bc, max_ri = max_ri bc,
                payload = Slice start_bc step_bc\<rparr>)
           | Some a \<Rightarrow>
               if type_ri a = RI_SLICE then
                 (case payload a of
                    Slice start_ab step_ab \<Rightarrow>
                      (let start = start_ab + step_ab * start_bc;
                           step = step_ab * step_bc
                       in Some (alloc_hdr h
                         \<lparr>type_ri = RI_SLICE, length_ri = n,
                          min_ri = (if 0 \<le>s step then start else start + step * (n - 1)),
                          max_ri = (if 0 \<le>s step then start + step * (n - 1) else start),
                          payload = Slice start step\<rparr>))
                  | _ \<Rightarrow> None)
               else if step_bc = 0 then
                 (case (if type_ri a = RI_ARR32 then at32w h (payload a) (sint start_bc)
                        else at64 h (payload a) (sint start_bc)) of
                    None \<Rightarrow> None
                  | Some s \<Rightarrow> Some (alloc_hdr h
                      \<lparr>type_ri = RI_SLICE, length_ri = n, min_ri = s, max_ri = s,
                       payload = Slice s 0\<rparr>))
               else if type_ri a = RI_ARR32 then
                 (case gather_slice (at32 h (payload a)) (nat (sint n)) start_bc step_bc
                         ([], ucast INT32_MAX, 0) of
                    None \<Rightarrow> None
                  | Some (rowsres, mn, mx) \<Rightarrow> finish_arr32 h n rowsres mn mx)
               else
                 (case gather_slice (at64 h (payload a)) (nat (sint n)) start_bc step_bc
                         ([], INT64_MAX, 0) of
                    None \<Rightarrow> None
                  | Some (rowsres, mn, mx) \<Rightarrow> finish_arr64 h n rowsres mn mx))
      | _ \<Rightarrow> None)"

text \<open>
  \<open>case RI_ARR32: case RI_ARR64:\<close> of the switch. With \<open>ri_ab = NULL\<close> the code copies
  the array of \<open>ri_bc\<close> to \<open>res->ind32\<close>, which has not been assigned since \<open>res\<close> was
  allocated: the \<open>memcpy\<close> writes through an indeterminate pointer.
\<close>

definition merge_arr :: "heap \<Rightarrow> RowIndex option \<Rightarrow> RowIndex \<Rightarrow> (ptr \<times> heap) option" where
  "merge_arr h ab bc =
     (let n = length_ri bc; type_bc = type_ri bc;
          rows_bc = (if type_bc = RI_ARR32 then at32w h (payload bc) else at64 h (payload bc))
      in
      case ab of
        None \<Rightarrow>
          (case memcpy_ind h Uninit (payload bc) (nat (sint n)) of None \<Rightarrow> None
           | Some h1 \<Rightarrow> Some (alloc_hdr h1
               \<lparr>type_ri = type_bc, length_ri = n, min_ri = min_ri bc, max_ri = max_ri bc,
                payload = Uninit\<rparr>))
      | Some a \<Rightarrow>
          if type_ri a = RI_SLICE then
            (case payload a of
               Slice start_ab step_ab \<Rightarrow>
                 (case affine_loop rows_bc start_ab step_ab (nat (sint n)) 0 [] of
                    None \<Rightarrow> None
                  | Some rowsres \<Rightarrow> finish_arr64 h n rowsres
                      (start_ab + step_ab * (if 0 \<le>s step_ab then min_ri bc else max_ri bc))
                      (start_ab + step_ab * (if 0 \<le>s step_ab then max_ri bc else min_ri bc)))
             | _ \<Rightarrow> None)
          else if type_ri a = RI_ARR32 \<and> type_bc = RI_ARR32 then
            (case gather_ind (at32 h (payload a)) rows_bc (nat (sint n)) 0
                    ([], ucast INT32_MAX, 0) of
               None \<Rightarrow> None
             | Some (rows_ac, mn, mx) \<Rightarrow> finish_arr32 h n rows_ac mn mx)
          else
            (case gather_ind
                    (if type_ri a = RI_ARR32 then at32w h (payload a) else at64 h (payload a))
                    rows_bc (nat (sint n)) 0 ([], INT64_MAX, 0) of
               None \<Rightarrow> None
             | Some (rows_ac, mn, mx) \<Rightarrow> finish_arr64 h n rows_ac mn mx))"

definition rowindex_merge :: "heap \<Rightarrow> ptr \<Rightarrow> ptr \<Rightarrow> (ptr \<times> heap) option" where
  "rowindex_merge h ri_ab ri_bc =
     (if ri_bc = NULL then Some (NULL, h)
      else case get_hdr h ri_bc of None \<Rightarrow> None
      | Some bc \<Rightarrow>
        (case (if ri_ab = NULL then Some None else map_option Some (get_hdr h ri_ab)) of
           None \<Rightarrow> None
         | Some ab \<Rightarrow>
             if length_ri bc = 0 then
               Some (alloc_hdr h
                 \<lparr>type_ri = RI_SLICE, length_ri = length_ri bc, min_ri = 0, max_ri = 0,
                  payload = Slice 0 1\<rparr>)
             else (case type_ri bc of
                 RI_SLICE \<Rightarrow> merge_slice h ab bc
               | _ \<Rightarrow> merge_arr h ab bc)))"

section \<open>\<open>rowindex_from_column_with_rowindex\<close>\<close>

text \<open>
  Modelled from the spec: the \<open>Column\<close> struct and the storage types of \<open>types.h\<close> are
  not part of the sources. The function reads the storage type, which must be the
  boolean 1-byte one, and the bytes of the column.
\<close>

datatype SType = ST_BOOLEAN_I1 | ST_OTHER

record Column =
  stype :: SType
  data :: "int8_t list"

text \<open>An expansion of \<open>ITER_ALL\<close>: \<open>CODE\<close> run on every visited pair, in order.\<close>

primrec run_code :: "('p \<Rightarrow> 's \<Rightarrow> 's option) \<Rightarrow> 'p list \<Rightarrow> 's \<Rightarrow> 's option" where
  "run_code CODE [] s = Some s"
| "run_code CODE (p # ps) s = (case CODE p s of None \<Rightarrow> None | Some s' \<Rightarrow> run_code CODE ps s')"

text \<open>\<open>if (data[j] == 1) { nouts++; maxrow = j; }\<close> on the state \<open>(nouts, maxrow)\<close>.\<close>

definition count_code :: "int8_t list \<Rightarrow> nat \<times> int64_t \<Rightarrow> int64_t \<times> int64_t
    \<Rightarrow> (int64_t \<times> int64_t) option" where
  "count_code dat ij acc =
     (case ij of (i, j) \<Rightarrow> case acc of (nouts, maxrow) \<Rightarrow>
        (case at_list dat (sint j) of None \<Rightarrow> None
         | Some d \<Rightarrow> Some (if d = 1 then (nouts + 1, j) else (nouts, maxrow))))"

text \<open>
  \<open>if (data[j] == 1) { out[k++] = (int32_t) i; }\<close>, and the same with \<open>int64_t\<close>: the
  state is the written part of \<open>out\<close>, \<open>k\<close> is its length. The cast keeps the low bits
  of \<open>i\<close>.
\<close>

definition emit_code :: "int8_t list \<Rightarrow> nat \<times> int64_t \<Rightarrow> 'a::len word list
    \<Rightarrow> 'a word list option" where
  "emit_code dat ij out =
     (case ij of (i, j) \<Rightarrow>
        (case at_list dat (sint j) of None \<Rightarrow> None
         | Some d \<Rightarrow> Some (if d = 1 then out @ [of_nat i] else out)))"

definition rowindex_from_column_with_rowindex :: "heap \<Rightarrow> Column \<Rightarrow> ptr \<Rightarrow> (ptr \<times> heap) option" where
  "rowindex_from_column_with_rowindex h col rowindex =
     (if stype col \<noteq> ST_BOOLEAN_I1 then Some (NULL, h)
      else case get_hdr h rowindex of None \<Rightarrow> None
      | Some ri \<Rightarrow>
        (case ITER_ALL h ri of None \<Rightarrow> None
         | Some pairs \<Rightarrow>
           (case run_code (count_code (data col)) pairs (0, 0) of None \<Rightarrow> None
            | Some (nouts, maxrow) \<Rightarrow>
                if nouts = 0 then
                  Some (alloc_hdr h
                    \<lparr>type_ri = RI_ARR32, length_ri = nouts, min_ri = 0, max_ri = maxrow,
                     payload = Ind NULL\<rparr>)
                else if nouts \<le>s INT32_MAX \<and> maxrow \<le>s INT32_MAX then
                  (case run_code (emit_code (data col)) pairs ([] :: int32_t list) of
                     None \<Rightarrow> None
                   | Some out \<Rightarrow>
                       (case at_list out 0 of None \<Rightarrow> None
                        | Some out0 \<Rightarrow>
                            (let (p, h1) = alloc_buf h (Ind32 out)
                             in Some (alloc_hdr h1
                               \<lparr>type_ri = RI_ARR32, length_ri = nouts, min_ri = scast out0,
                                max_ri = maxrow, payload = Ind p\<rparr>))))
                else
                  (case run_code (emit_code (data col)) pairs ([] :: int64_t list) of
                     None \<Rightarrow> None
                   | Some out \<Rightarrow>
                       (case at_list out 0 of None \<Rightarrow> None
                        | Some out0 \<Rightarrow>
                            (let (p, h1) = alloc_buf h (Ind64 out)
                             in Some (alloc_hdr h1
                               \<lparr>type_ri = RI_ARR64, length_ri = nouts, min_ri = out0,
                                max_ri = maxrow, payload = Ind p\<rparr>)))))))"

section \<open>\<open>rowindex_from_filterfn32\<close>\<close>

text \<open>
  The parallel region is modelled by its threads and a schedule. A thread is between
  two iterations of the loop (\<open>Idle\<close>, also before its first), or has called the
  filter for chunk \<open>i\<close> and waits for its turn in the ordered section (\<open>Filled i\<close>),
  or has left the loop and done the final copy (\<open>Done\<close>). Its private variables are
  \<open>buf\<close> (the part written by the last call of the filter), \<open>buf_length\<close> and
  \<open>out_offset\<close>.
\<close>

datatype phase = Idle | Filled nat | Done

record thread =
  buf :: "int32_t list"
  buf_length :: int32_t
  out_offset :: nat
  pc :: phase

text \<open>
  The shared variables \<open>out\<close> and \<open>out_length\<close>, the next chunk that the dynamic
  schedule hands out, and the chunk whose ordered section is next (\<open>turn\<close>).
\<close>

record team =
  out :: "int32_t list"
  out_length :: nat
  next_chunk :: nat
  turn :: nat
  threads :: "thread list"

datatype 'a outcome = Fault | Unfinished | Return 'a

definition rows_per_chunk :: nat where
  "rows_per_chunk = 65536"

text \<open>
  Once \<open>nrows \<le> INT32_MAX\<close> is known, the \<open>int64_t\<close> arithmetic of the chunk bounds
  cannot overflow; it is done on \<open>nat\<close>. \<open>num_chunks\<close> is
  \<open>(nrows + rows_per_chunk - 1) / rows_per_chunk\<close>.
\<close>

definition num_chunks :: "nat \<Rightarrow> nat" where
  "num_chunks nrows = (nrows + rows_per_chunk - 1) div rows_per_chunk"

text \<open>\<open>(size_t) buf_length\<close>\<close>

definition size_of :: "int32_t \<Rightarrow> nat" where
  "size_of n = unat (scast n :: int64_t)"

text \<open>\<open>memcpy(out + off, buf, n * sizeof(int32_t))\<close>\<close>

definition memcpy_out :: "int32_t list \<Rightarrow> nat \<Rightarrow> int32_t list \<Rightarrow> nat \<Rightarrow> int32_t list option" where
  "memcpy_out dst off src n =
     (if off + n \<le> length dst \<and> n \<le> length src
      then Some (take off dst @ take n src @ drop (off + n) dst) else None)"

text \<open>\<open>if (buf_length) { memcpy(out + out_offset, buf, bufsize); }\<close>\<close>

definition flush :: "thread \<Rightarrow> int32_t list \<Rightarrow> int32_t list option" where
  "flush th dst =
     (if buf_length th \<noteq> 0
      then memcpy_out dst (out_offset th) (buf th) (size_of (buf_length th))
      else Some dst)"

text \<open>
  One move of thread \<open>t\<close>. An idle thread takes the next chunk if there is one: it
  copies what it still holds, calls the filter, which writes \<open>buf\<close> and \<open>buf_length\<close>,
  and then waits for the ordered section; if no chunk is left it does the final copy.
  A thread that waits enters the ordered section when its chunk has the turn: it
  claims \<open>out_length\<close> as its \<open>out_offset\<close> and advances \<open>out_length\<close>. A thread that
  cannot move leaves the state as it is. The filter gets \<open>row0\<close> and \<open>row1\<close> and returns
  what it writes to the buffer and to the count.
\<close>

definition thread_step :: "(nat \<Rightarrow> nat \<Rightarrow> int32_t list \<times> int32_t) \<Rightarrow> nat \<Rightarrow> nat \<Rightarrow> team
    \<Rightarrow> team option" where
  "thread_step filterfn nrows t s =
     (if length (threads s) \<le> t then Some s
      else let th = threads s ! t in
        case pc th of
          Done \<Rightarrow> Some s
        | Filled i \<Rightarrow>
            if i = turn s
            then Some (s\<lparr>out_length := out_length s + size_of (buf_length th),
                        turn := turn s + 1,
                        threads := (threads s)[t := th\<lparr>out_offset := out_length s, pc := Idle\<rparr>]\<rparr>)
            else Some s
        | Idle \<Rightarrow>
            (case flush th (out s) of
               None \<Rightarrow> None
             | Some out' \<Rightarrow>
                 if next_chunk s < num_chunks nrows then
                   (let i = next_chunk s;
                        row0 = i * rows_per_chunk;
                        row1 = min (row0 + rows_per_chunk) nrows;
                        (written, nouts) = filterfn row0 row1
                    in if rows_per_chunk < length written then None
                       else Some (s\<lparr>out := out', next_chunk := i + 1,
                         threads := (threads s)[t := th\<lparr>buf := written, buf_length := nouts,
                                                         pc := Filled i\<rparr>]\<rparr>))
                 else Some (s\<lparr>out := out', threads := (threads s)[t := th\<lparr>pc := Done\<rparr>]\<rparr>)))"

text \<open>The schedule names the thread that moves next.\<close>

primrec run_team :: "(nat \<Rightarrow> nat \<Rightarrow> int32_t list \<times> int32_t) \<Rightarrow> nat \<Rightarrow> nat list \<Rightarrow> team
    \<Rightarrow> team option" where
  "run_team filterfn nrows [] s = Some s"
| "run_team filterfn nrows (t # ts) s = (case thread_step filterfn nrows t s of None \<Rightarrow> None
     | Some s' \<Rightarrow> run_team filterfn nrows ts s')"

definition init_team :: "nat \<Rightarrow> nat \<Rightarrow> int32_t \<Rightarrow> team" where
  "init_team nrows nthreads junk =
     \<lparr>out = replicate nrows junk, out_length = 0, next_chunk = 0, turn = 0,
      threads = replicate nthreads \<lparr>buf = [], buf_length = 0, out_offset = 0, pc = Idle\<rparr>\<rparr>"

text \<open>The parallel region ends when every thread of the team is done.\<close>

definition finished :: "team \<Rightarrow> bool" where
  "finished s \<longleftrightarrow> (\<forall>th \<in> set (threads s). pc th = Done)"

text \<open>
  The function, for a team of \<open>nthreads\<close> threads run by the schedule \<open>sched\<close>; \<open>junk\<close>
  stands for the contents of the freshly allocated \<open>out\<close>. \<open>Unfinished\<close>: the schedule
  ends before the parallel region does. \<open>Fault\<close>: a copy leaves \<open>out\<close> or \<open>buf\<close>, or
  the filter writes more than a chunk. The schedules include those that the barrier at
  the end of the loop excludes (a thread may do its final copy while others are still in
  the loop). A negative \<open>nrows\<close> allocates nothing here; what the code does then
  depends on \<open>dtmalloc\<close>.
\<close>

definition rowindex_from_filterfn32 :: "heap \<Rightarrow> (nat \<Rightarrow> nat \<Rightarrow> int32_t list \<times> int32_t) \<Rightarrow> int64_t
    \<Rightarrow> nat \<Rightarrow> nat list \<Rightarrow> int32_t \<Rightarrow> (ptr \<times> heap) outcome" where
  "rowindex_from_filterfn32 h filterfn nrows nthreads sched junk =
     (if INT32_MAX <s nrows then Return (NULL, h)
      else case run_team filterfn (nat (sint nrows)) sched
                  (init_team (nat (sint nrows)) nthreads junk) of
        None \<Rightarrow> Fault
      | Some s \<Rightarrow>
          if \<not> finished s then Unfinished
          else (case (if out_length s \<noteq> 0
                      then (at_list (out s) 0, at_list (out s) (int (out_length s) - 1))
                      else (Some 0, Some 0)) of
              (Some out_first, Some out_last) \<Rightarrow>
                (let (p, h1) = alloc_buf h (Ind32 (take (out_length s) (out s)))
                 in Return (alloc_hdr h1
                      \<lparr>type_ri = RI_ARR32, length_ri = of_nat (out_length s),
                       min_ri = scast out_first, max_ri = scast out_last, payload = Ind p\<rparr>))
            | _ \<Rightarrow> Fault))"

section \<open>Conditions of the specification and of the proofs\<close>

text \<open>
  The failure condition of the slice constructor in the words of the specification, over
  the mathematical integers: \<open>start < 0\<close>, or \<open>count < 0\<close>, or \<open>count > 1\<close> and the
  endpoint \<open>start + step \<sqdot> (count - 1)\<close> is negative or exceeds the 64-bit signed range.
\<close>

definition slice_rejected :: "int \<Rightarrow> int \<Rightarrow> int \<Rightarrow> bool" where
  "slice_rejected start count step \<longleftrightarrow>
     start < 0 \<or> count < 0 \<or>
     (1 < count \<and> (start + step * (count - 1) < 0 \<or> 2 ^ 63 - 1 < start + step * (count - 1)))"

text \<open>
  The invariants that the specification gives for a live RowIndex. First the pointer of
  an array variant: \<open>NULL\<close> only for an empty index, otherwise an allocated array of the
  variant's element width with at least \<open>length\<close> elements.
\<close>

definition ind_ok :: "heap \<Rightarrow> RowIndex \<Rightarrow> bool" where
  "ind_ok h r =
     (case payload r of
        Ind NULL \<Rightarrow> sint (length_ri r) \<le> 0
      | Ind (Ptr a) \<Rightarrow>
          (case get_buf h (payload r) of
             Some (Ind32 xs) \<Rightarrow> type_ri r = RI_ARR32 \<and> nat (sint (length_ri r)) \<le> length xs
           | Some (Ind64 xs) \<Rightarrow> type_ri r = RI_ARR64 \<and> nat (sint (length_ri r)) \<le> length xs
           | None \<Rightarrow> False)
      | _ \<Rightarrow> False)"

text \<open>
  \<open>length \<ge> 0\<close>; a SLICE has \<open>start \<ge> 0\<close> and, when not empty, an endpoint that is not
  negative and fits in 64 bits; an ARR32 has at most \<open>2\<^sup>3\<^sup>1 - 1\<close> elements; no produced row
  is negative; \<open>min\<close> and \<open>max\<close> bound the produced rows and, when there are any, are
  among them.
\<close>

definition valid_ri :: "heap \<Rightarrow> RowIndex \<Rightarrow> bool" where
  "valid_ri h r \<longleftrightarrow>
     0 \<le> sint (length_ri r) \<and>
     (case type_ri r of
        RI_SLICE \<Rightarrow>
          (case payload r of
             Slice start step \<Rightarrow>
               0 \<le> sint start \<and>
               (0 < sint (length_ri r) \<longrightarrow>
                  0 \<le> sint start + sint step * (sint (length_ri r) - 1) \<and>
                  sint start + sint step * (sint (length_ri r) - 1) < 2 ^ 63)
           | _ \<Rightarrow> False)
      | RI_ARR32 \<Rightarrow> ind_ok h r \<and> sint (length_ri r) < 2 ^ 31
      | RI_ARR64 \<Rightarrow> ind_ok h r) \<and>
     (case elems h r of
        None \<Rightarrow> False
      | Some js \<Rightarrow>
          (\<forall>j \<in> set js. 0 \<le>s j \<and> min_ri r \<le>s j \<and> j \<le>s max_ri r) \<and>
          (js \<noteq> [] \<longrightarrow> min_ri r \<in> set js \<and> max_ri r \<in> set js))"

text \<open>The heap after a call of \<open>rowindex_compactify\<close>, where the call is defined.\<close>

definition compactify_state :: "heap \<Rightarrow> ptr \<Rightarrow> heap option" where
  "compactify_state h self = map_option snd (rowindex_compactify h self)"

text \<open>
  The precondition of \<open>rowindex_merge\<close>, for headers \<open>ab\<close> (A\<open>\<rightarrow>\<close>B) and \<open>bc\<close>
  (B\<open>\<rightarrow>\<close>C): both satisfy the invariants, and every row that \<open>bc\<close> produces is a
  position of \<open>ab\<close> (it is not negative by the invariant of \<open>bc\<close>).
\<close>

definition merge_pre :: "heap \<Rightarrow> RowIndex \<Rightarrow> RowIndex \<Rightarrow> bool" where
  "merge_pre h ab bc \<longleftrightarrow>
     valid_ri h ab \<and> valid_ri h bc \<and>
     (case elems h bc of None \<Rightarrow> False | Some js \<Rightarrow> \<forall>j \<in> set js. j <s length_ri ab)"

text \<open>
  \<open>extends h h'\<close>: every header and every array of \<open>h\<close> is in \<open>h'\<close> at its address
  with its contents; \<open>h'\<close> may hold more.
\<close>

definition extends :: "heap \<Rightarrow> heap \<Rightarrow> bool" where
  "extends h h' \<longleftrightarrow> take (length (hdrs h)) (hdrs h') = hdrs h \<and>
     take (length (bufs h)) (bufs h') = bufs h"

text \<open>
  A call returns a header of length \<open>n\<close> whose iteration produces the rows \<open>js\<close>.
\<close>

definition returns :: "(ptr \<times> heap) option \<Rightarrow> int64_t \<Rightarrow> int64_t list \<Rightarrow> bool" where
  "returns X n js \<longleftrightarrow>
     (\<exists>p h' R. X = Some (Ptr p, h') \<and> get_hdr h' (Ptr p) = Some R \<and> length_ri R = n \<and>
        elems h' R = Some js)"

text \<open>
  The contract of the callback, for the predicate \<open>sel\<close> that it implements: for each
  chunk it writes the selected rows of the chunk in ascending order and reports their
  number.
\<close>

definition selected :: "(nat \<Rightarrow> bool) \<Rightarrow> nat \<Rightarrow> nat \<Rightarrow> nat list" where
  "selected sel row0 row1 = filter sel [row0..<row1]"

definition filter_contract :: "(nat \<Rightarrow> nat \<Rightarrow> int32_t list \<times> int32_t) \<Rightarrow> (nat \<Rightarrow> bool) \<Rightarrow> nat \<Rightarrow> bool" where
  "filter_contract filterfn sel nrows \<longleftrightarrow>
     (\<forall>i < num_chunks nrows.
        filterfn (i * rows_per_chunk) (min (i * rows_per_chunk + rows_per_chunk) nrows) =
          (map of_nat (selected sel (i * rows_per_chunk)
                         (min (i * rows_per_chunk + rows_per_chunk) nrows)),
           of_nat (length (selected sel (i * rows_per_chunk)
                         (min (i * rows_per_chunk + rows_per_chunk) nrows)))))"

text \<open>
  What the proof of the filter builder speaks about: the selected rows of chunk \<open>i\<close>,
  the offset of chunk \<open>i\<close> in the output (the number of selected rows in the chunks
  before it), a chunk whose rows are in place in \<open>out\<close>, and a thread whose buffer holds
  the rows of a chunk.
\<close>

definition chunk_rows :: "(nat \<Rightarrow> bool) \<Rightarrow> nat \<Rightarrow> nat \<Rightarrow> nat list" where
  "chunk_rows sel nrows i =
     selected sel (i * rows_per_chunk) (min (i * rows_per_chunk + rows_per_chunk) nrows)"

definition chunk_off :: "(nat \<Rightarrow> bool) \<Rightarrow> nat \<Rightarrow> nat \<Rightarrow> nat" where
  "chunk_off sel nrows i = length (concat (map (chunk_rows sel nrows) [0..<i]))"

definition in_place :: "(nat \<Rightarrow> bool) \<Rightarrow> nat \<Rightarrow> int32_t list \<Rightarrow> nat \<Rightarrow> bool" where
  "in_place sel nrows dst c \<longleftrightarrow>
     (\<forall>k < length (chunk_rows sel nrows c).
        dst ! (chunk_off sel nrows c + k) = of_nat (chunk_rows sel nrows c ! k))"

definition holds :: "(nat \<Rightarrow> bool) \<Rightarrow> nat \<Rightarrow> thread \<Rightarrow> nat \<Rightarrow> bool" where
  "holds sel nrows th c \<longleftrightarrow>
     buf th = map of_nat (chunk_rows sel nrows c) \<and>
     buf_length th = of_nat (length (chunk_rows sel nrows c))"

text \<open>The invariant of the parallel region.\<close>

definition team_inv :: "(nat \<Rightarrow> bool) \<Rightarrow> nat \<Rightarrow> team \<Rightarrow> bool" where
  "team_inv sel nrows s \<longleftrightarrow>
     length (out s) = nrows \<and>
     turn s \<le> next_chunk s \<and> next_chunk s \<le> num_chunks nrows \<and>
     out_length s = chunk_off sel nrows (turn s) \<and>
     (\<forall>t < length (threads s).
        case pc (threads s ! t) of
          Filled i \<Rightarrow> turn s \<le> i \<and> i < next_chunk s \<and> holds sel nrows (threads s ! t) i
        | Idle \<Rightarrow> buf_length (threads s ! t) = 0 \<or>
            (\<exists>c < turn s. holds sel nrows (threads s ! t) c \<and>
               out_offset (threads s ! t) = chunk_off sel nrows c)
        | Done \<Rightarrow> next_chunk s = num_chunks nrows) \<and>
     (\<forall>c < turn s. in_place sel nrows (out s) c \<or>
        (\<exists>t < length (threads s). pc (threads s ! t) = Idle \<and> holds sel nrows (threads s ! t) c \<and>
           out_offset (threads s ! t) = chunk_off sel nrows c)) \<and>
     (\<forall>i. turn s \<le> i \<and> i < next_chunk s \<longrightarrow>
        (\<exists>t < length (threads s). pc (threads s ! t) = Filled i)) \<and>
     (\<forall>t < length (threads s). \<forall>u < length (threads s). \<forall>i.
        pc (threads s ! t) = Filled i \<and> pc (threads s ! u) = Filled i \<longrightarrow> t = u)"

text \<open>
  The moves that are left in the parallel region: one for every chunk not yet handed
  out, one for every chunk that has not had its turn in the ordered section, and one
  for every thread that has not left.
\<close>

definition work_left :: "nat \<Rightarrow> team \<Rightarrow> nat" where
  "work_left nrows s =
     (num_chunks nrows - next_chunk s) + (num_chunks nrows - turn s) +
     length (filter (\<lambda>p. p \<noteq> Done) (map pc (threads s)))"

section \<open>Concrete inputs\<close>

text \<open>An ARR64 index over the rows 100, 120, 130, and one whose largest row needs 64 bits.\<close>

definition heap_arr64 :: heap where
  "heap_arr64 =
     \<lparr>hdrs = [\<lparr>type_ri = RI_ARR64, length_ri = 3, min_ri = 100, max_ri = 130,
               payload = Ind (Ptr 0)\<rparr>,
              \<lparr>type_ri = RI_ARR64, length_ri = 2, min_ri = 7, max_ri = 2147483648,
               payload = Ind (Ptr 1)\<rparr>],
      bufs = [Ind64 [100, 120, 130], Ind64 [7, 2147483648]]\<rparr>"

text \<open>The slices (100, 4, 10) and (1, 2, 2).\<close>

definition heap_slices :: heap where
  "heap_slices =
     \<lparr>hdrs = [\<lparr>type_ri = RI_SLICE, length_ri = 4, min_ri = 100, max_ri = 130,
               payload = Slice 100 10\<rparr>,
              \<lparr>type_ri = RI_SLICE, length_ri = 2, min_ri = 1, max_ri = 3,
               payload = Slice 1 2\<rparr>],
      bufs = []\<rparr>"

text \<open>An ARR32 index over the rows 5, 3, 9.\<close>

definition heap_arr32 :: heap where
  "heap_arr32 =
     \<lparr>hdrs = [\<lparr>type_ri = RI_ARR32, length_ri = 3, min_ri = 3, max_ri = 9,
               payload = Ind (Ptr 0)\<rparr>],
      bufs = [Ind32 [5, 3, 9]]\<rparr>"

text \<open>The slice (100, 4, 10) and an ARR32 index over its positions 0, 2, 3.\<close>

definition heap_scn6 :: heap where
  "heap_scn6 =
     \<lparr>hdrs = [\<lparr>type_ri = RI_SLICE, length_ri = 4, min_ri = 100, max_ri = 130,
               payload = Slice 100 10\<rparr>,
              \<lparr>type_ri = RI_ARR32, length_ri = 3, min_ri = 0, max_ri = 3,
               payload = Ind (Ptr 0)\<rparr>],
      bufs = [Ind32 [0, 2, 3]]\<rparr>"

text \<open>
  A view of the rows 3 and 4 of a table, the slice (3, 2, 1), and a boolean column of
  the table that is true at exactly these rows.
\<close>

definition heap_view :: heap where
  "heap_view =
     \<lparr>hdrs = [\<lparr>type_ri = RI_SLICE, length_ri = 2, min_ri = 3, max_ri = 4,
               payload = Slice 3 1\<rparr>],
      bufs = []\<rparr>"

definition col_view :: Column where
  "col_view = \<lparr>stype = ST_BOOLEAN_I1, data = [0, 0, 0, 1, 1]\<rparr>"

text \<open>
  A view of a table of \<open>2\<^sup>3\<^sup>1 + 1\<close> rows in reverse order, the slice
  \<open>(2\<^sup>3\<^sup>1, 2\<^sup>3\<^sup>1 + 1, -1)\<close>, and a boolean column of the table that is true at row 0 only.
\<close>

definition heap_rev :: heap where
  "heap_rev =
     \<lparr>hdrs = [\<lparr>type_ri = RI_SLICE, length_ri = 2147483649, min_ri = 0, max_ri = 2147483648,
               payload = Slice 2147483648 (- 1)\<rparr>],
      bufs = []\<rparr>"

definition col_rev :: Column where
  "col_rev = \<lparr>stype = ST_BOOLEAN_I1, data = 1 # replicate 2147483648 0\<rparr>"

text \<open>A callback that selects the odd rows.\<close>

definition odd_rows :: "nat \<Rightarrow> nat \<Rightarrow> int32_t list \<times> int32_t" where
  "odd_rows row0 row1 = (map of_nat (filter odd [row0..<row1]), of_nat (length (filter odd [row0..<row1])))"

section \<open>Arithmetic of 64-bit words\<close>

lemma sint64_range: "- (2^63) \<le> sint (x::int64_t) \<and> sint x < 2^63"
  using sint_range_size[of x] by (simp add: word_size)

lemma sint_of_int64: "- (2^63) \<le> k \<Longrightarrow> k < 2^63 \<Longrightarrow> sint (word_of_int k :: int64_t) = k"
  by (simp add: signed_take_bit_int_eq_self sint_sbintrunc')

lemma sint_add64: "- (2^63) \<le> sint a + sint b \<Longrightarrow> sint a + sint b < 2^63 \<Longrightarrow> sint (a + b :: int64_t) = sint a + sint b"
  by (simp add: sint_word_ariths signed_take_bit_int_eq_self)

lemma sint_sub64: "- (2^63) \<le> sint a - sint b \<Longrightarrow> sint a - sint b < 2^63 \<Longrightarrow> sint (a - b :: int64_t) = sint a - sint b"
  by (simp add: sint_word_ariths signed_take_bit_int_eq_self)

lemma sint_mult64: "- (2^63) \<le> sint a * sint b \<Longrightarrow> sint a * sint b < 2^63 \<Longrightarrow> sint (a * b :: int64_t) = sint a * sint b"
  by (simp add: sint_word_ariths signed_take_bit_int_eq_self)

lemma sint_neg64: "- (2^63) < sint a \<Longrightarrow> sint (- a :: int64_t) = - sint a"
  using sint64_range[of a] by (simp add: sint_word_ariths signed_take_bit_int_eq_self)

lemma sint_INT64_MAX: "sint INT64_MAX = 2^63 - 1"
  by (simp add: INT64_MAX_def)

lemma sint_INT32_MAX: "sint INT32_MAX = 2^31 - 1"
  by (simp add: INT32_MAX_def)

lemma c_div_pos: "0 \<le> sint a \<Longrightarrow> 0 < sint b \<Longrightarrow> sint (c_div a b) = sint a div sint b"
proof -
  assume a: "0 \<le> sint a" and b: "0 < sint b"
  have "sint a sdiv sint b = sint a div sint b"
    using a b by (simp add: signed_divide_int_def sgn_if)
  moreover have "0 \<le> sint a div sint b" using a b by (simp add: pos_imp_zdiv_nonneg_iff)
  moreover have "sint a div sint b \<le> sint a" using a b
    by (metis div_by_1 int_one_le_iff_zero_less zdiv_mono2 zero_less_one)
  ultimately show ?thesis using sint64_range[of a]
    by (simp add: c_div_def sint_of_int64)
qed



lemma div_less_iff_int:
  fixes b s m :: int
  assumes m: "0 < m"
  shows "b div m < s \<longleftrightarrow> b < s * m"
proof -
  have e: "b = (b div m) * m + b mod m" by simp
  have lo: "0 \<le> b mod m" and hi: "b mod m < m" using m by simp_all
  show ?thesis
  proof
    assume "b div m < s"
    then have "b div m + 1 \<le> s" by simp
    then have "(b div m + 1) * m \<le> s * m" using m by (simp only: mult_right_mono less_imp_le)
    then have "(b div m) * m + m \<le> s * m" by (simp add: algebra_simps)
    with e hi show "b < s * m" by linarith
  next
    assume h: "b < s * m"
    show "b div m < s"
    proof (rule ccontr)
      assume "\<not> b div m < s"
      then have "s \<le> b div m" by simp
      then have "s * m \<le> (b div m) * m" using m by (simp only: mult_right_mono less_imp_le)
      with e lo h show False by linarith
    qed
  qed
qed

lemma slice_low:
  fixes a s m :: int
  assumes m: "0 < m"
  shows "s < - (a div m) \<longleftrightarrow> a + s * m < 0"
proof -
  have "s < - (a div m) \<longleftrightarrow> a div m < - s" by linarith
  also have "\<dots> \<longleftrightarrow> a < (- s) * m" by (rule div_less_iff_int [OF m])
  also have "\<dots> \<longleftrightarrow> a + s * m < 0" by (simp add: less_minus_iff) linarith
  finally show ?thesis .
qed


section \<open>Properties\<close>

lemma from_slice_guard:
  "(start <s 0 \<or> count <s 0 \<or>
         (1 <s count \<and> step <s - (c_div start (count - 1))) \<or>
         (1 <s count \<and> c_div (INT64_MAX - start) (count - 1) <s step))
   \<longleftrightarrow> slice_rejected (sint start) (sint count) (sint step)"
proof (cases "0 \<le> sint start \<and> 1 < sint count")
  case False
  then show ?thesis
    by (auto simp: word_sless_alt slice_rejected_def)
next
  case True
  then have s: "0 \<le> sint start" and c: "1 < sint count" by simp_all
  have c1: "sint (count - 1) = sint count - 1"
    using c sint64_range[of count] by (simp add: sint_sub64)
  have m: "0 < sint (count - 1)" using c c1 by simp
  have d1: "sint (c_div start (count - 1)) = sint start div (sint count - 1)"
    using c_div_pos[OF s m] c1 by simp
  have "0 \<le> sint start div (sint count - 1)"
    using s c by (simp add: pos_imp_zdiv_nonneg_iff)
  then have n1: "sint (- c_div start (count - 1)) = - (sint start div (sint count - 1))"
    using d1 by (simp add: sint_neg64)
  have ms: "sint (INT64_MAX - start) = 2 ^ 63 - 1 - sint start"
    using s sint64_range[of start] by (simp add: sint_sub64 sint_INT64_MAX)
  have ms0: "0 \<le> sint (INT64_MAX - start)" using ms sint64_range[of start] by simp
  have d2: "sint (c_div (INT64_MAX - start) (count - 1)) = (2 ^ 63 - 1 - sint start) div (sint count - 1)"
    using c_div_pos[OF ms0 m] c1 ms by simp
  have m': "0 < sint count - 1" using c by simp
  have lo: "sint step < - (sint start div (sint count - 1)) \<longleftrightarrow> sint start + sint step * (sint count - 1) < 0"
    by (rule slice_low [OF m'])
  have hi: "(2 ^ 63 - 1 - sint start) div (sint count - 1) < sint step
      \<longleftrightarrow> 2 ^ 63 - 1 < sint start + sint step * (sint count - 1)"
    using div_less_iff_int [OF m', of "2 ^ 63 - 1 - sint start" "sint step"] by linarith
  show ?thesis
    using s c lo hi by (simp add: word_sless_alt slice_rejected_def n1 d2)
qed

text \<open>
  C4. \<open>rowindex_from_slice\<close> returns \<open>NULL\<close> (and leaves the heap alone) exactly when
  \<open>start < 0\<close>, or \<open>count < 0\<close>, or \<open>count > 1\<close> and the endpoint
  \<open>start + step \<sqdot> (count - 1)\<close>, computed in the integers, is negative or above
  \<open>INT64_MAX\<close>. For every other input, \<open>step = 0\<close> and \<open>count\<close> 0 or 1 included,
  it returns a new SLICE header of length \<open>count\<close> that holds \<open>start\<close> and \<open>step\<close>.
\<close>

theorem rowindex_from_slice_result:
  "(slice_rejected (sint start) (sint count) (sint step) \<longrightarrow>
      rowindex_from_slice h start count step = (NULL, h)) \<and>
   (\<not> slice_rejected (sint start) (sint count) (sint step) \<longrightarrow>
      (\<exists>p h' r. rowindex_from_slice h start count step = (Ptr p, h') \<and>
         get_hdr h' (Ptr p) = Some r \<and> type_ri r = RI_SLICE \<and> length_ri r = count \<and>
         payload r = Slice start step \<and> bufs h' = bufs h \<and> hdrs h' = hdrs h @ [r]))"
  unfolding rowindex_from_slice_def from_slice_guard
  by (simp add: alloc_hdr_def get_hdr_def)

theorem rowindex_from_slice_result_witness:
  "rowindex_from_slice \<lparr>hdrs = [], bufs = []\<rparr> 10 5 (-2) \<noteq> (NULL, \<lparr>hdrs = [], bufs = []\<rparr>) \<and>
   rowindex_from_slice \<lparr>hdrs = [], bufs = []\<rparr> 10 5 (-3) = (NULL, \<lparr>hdrs = [], bufs = []\<rparr>)"
  using rowindex_from_slice_result [of 10 5 "-2" "\<lparr>hdrs = [], bufs = []\<rparr>"]
    rowindex_from_slice_result [of 10 5 "-3" "\<lparr>hdrs = [], bufs = []\<rparr>"]
  by (auto simp: slice_rejected_def)



text \<open>
  C10. When the B\<open>\<rightarrow>\<close>C argument is \<open>NULL\<close>, \<open>rowindex_merge\<close> returns \<open>NULL\<close>; it
  allocates nothing and does not look at the A\<open>\<rightarrow>\<close>B argument: the heap is returned as
  it was, whatever \<open>ri_ab\<close> is (even an invalid pointer).
\<close>

theorem merge_null_bc: "rowindex_merge h ri_ab NULL = Some (NULL, h)"
  by (simp add: rowindex_merge_def)

lemma at_list_Some: "at_list xs k = Some x \<longleftrightarrow> 0 \<le> k \<and> nat k < length xs \<and> x = xs ! nat k"
  by (auto simp: at_list_def)

lemma at_list_nat: "at_list xs (int i) = (if i < length xs then Some (xs ! i) else None)"
  by (simp add: at_list_def)

lemma compact_loop_eq:
  "i + k \<le> length src \<Longrightarrow> compact_loop src k i res = Some (res @ map ucast (take k (drop i src)))"
proof (induction k arbitrary: i res)
  case 0
  then show ?case by simp
next
  case (Suc k)
  then have "i < length src" by simp
  then have "take (Suc k) (drop i src) = src ! i # take k (drop (Suc i) src)"
    by (metis Cons_nth_drop_Suc take_Suc_Cons)
  with Suc show ?case by (simp add: at_list_nat)
qed

lemma compact_loop_None:
  "length src < i + k \<Longrightarrow> i \<le> length src \<Longrightarrow> compact_loop src k i res = None"
proof (induction k arbitrary: i res)
  case 0
  then show ?case by simp
next
  case (Suc k)
  then show ?case by (cases "i < length src") (simp_all add: at_list_nat)
qed

lemma iter_ind_eq:
  "iter_ind (\<lambda>n. map_option g (at_list xs n)) k i =
     (if k = 0 \<or> i + k \<le> length xs then Some (map (\<lambda>m. (m, g (xs ! m))) [i..<i + k]) else None)"
proof (induction k arbitrary: i)
  case 0
  then show ?case by simp
next
  case (Suc k)
  show ?case
  proof (cases "i < length xs")
    case True
    then show ?thesis using Suc[of "Suc i"]
      by (cases "k = 0") (auto simp: at_list_nat upt_conv_Cons)
  next
    case False
    then show ?thesis by (simp add: at_list_nat)
  qed
qed

lemma map_nth_upt_take: "k \<le> length xs \<Longrightarrow> map (\<lambda>m. g (xs ! m)) [0..<k] = map g (take k xs)"
  by (simp add: list_eq_iff_nth_eq)

lemma iter_slice_len [simp]: "length (iter_slice k i j step) = k"
  by (induction k arbitrary: i j) simp_all

lemma iter_slice_nth:
  "m < k \<Longrightarrow> iter_slice k i j step ! m = (i + m, j + of_nat m * step)"
proof (induction k arbitrary: i j m)
  case 0
  then show ?case by simp
next
  case (Suc k)
  then show ?case by (cases m) (simp_all add: algebra_simps)
qed

lemma iter_slice_eq: "iter_slice k i j step = map (\<lambda>m. (i + m, j + of_nat m * step)) [0..<k]"
  by (simp add: list_eq_iff_nth_eq iter_slice_nth)

lemma iter_ind_None: "(\<And>n. rd n = None) \<Longrightarrow> iter_ind rd k i = (if k = 0 then Some [] else None)"
  by (cases k) simp_all

lemma iter_ind_at:
  assumes "\<And>n. rd n = map_option g (at_list xs n)"
  shows "iter_ind rd k i =
     (if k = 0 \<or> i + k \<le> length xs then Some (map (\<lambda>m. (m, g (xs ! m))) [i..<i + k]) else None)"
proof -
  have "rd = (\<lambda>n. map_option g (at_list xs n))" using assms by auto
  then show ?thesis by (simp only: iter_ind_eq)
qed

lemma elems_ARR64:
  assumes "type_ri r = RI_ARR64" "get_buf h (payload r) = Some (Ind64 xs)"
  shows "elems h r = (if nat (sint (length_ri r)) \<le> length xs
                      then Some (take (nat (sint (length_ri r))) xs) else None)"
proof -
  have "\<And>n. at64 h (payload r) n = map_option (\<lambda>x. x) (at_list xs n)"
    using assms by (simp add: at64_def option.map_ident)
  from iter_ind_at [OF this, of "nat (sint (length_ri r))" 0]
  show ?thesis using assms
    by (auto simp: elems_def ITER_ALL_def o_def map_nth_upt_take[where g="\<lambda>x. x", simplified])
qed

lemma elems_ARR32:
  assumes "type_ri r = RI_ARR32" "get_buf h (payload r) = Some (Ind32 xs)"
  shows "elems h r = (if nat (sint (length_ri r)) \<le> length xs
                      then Some (map scast (take (nat (sint (length_ri r))) xs)) else None)"
proof -
  have "\<And>n. at32w h (payload r) n = map_option scast (at_list xs n)"
    using assms by (simp add: at32w_def at32_def)
  from iter_ind_at [OF this, of "nat (sint (length_ri r))" 0]
  show ?thesis using assms
    by (auto simp: elems_def ITER_ALL_def o_def map_nth_upt_take)
qed

lemma elems_empty:
  assumes "type_ri r \<noteq> RI_SLICE" "sint (length_ri r) \<le> 0"
  shows "elems h r = Some []"
  using assms by (cases "type_ri r") (simp_all add: elems_def ITER_ALL_def)

lemma get_hdr_Ptr: "get_hdr h (Ptr s) = Some r \<longleftrightarrow> s < length (hdrs h) \<and> r = hdrs h ! s"
  by (auto simp: get_hdr_def)

lemma ucast_as_sint: "(ucast (x::int64_t) :: int32_t) = word_of_int (sint x)"
  by (rule bit_word_eqI) (simp add: bit_simps min_def)

lemma sint_scast32: "sint (scast (y::int32_t) :: int64_t) = sint y"
  by (rule sint_up_scast) (simp add: is_up)

lemma sint_ucast_fits:
  fixes x :: int64_t
  assumes "- (2 ^ 31) \<le> sint x" "sint x < 2 ^ 31"
  shows "sint (ucast x :: int32_t) = sint x"
  using assms by (simp only: ucast_as_sint sint_sbintrunc') (simp add: signed_take_bit_int_eq_self)

lemma scast_ucast_fits:
  fixes x :: int64_t
  assumes "- (2 ^ 31) \<le> sint x" "sint x < 2 ^ 31"
  shows "(scast (ucast x :: int32_t) :: int64_t) = x"
proof -
  have "sint (scast (ucast x :: int32_t) :: int64_t) = sint x"
    using assms by (simp only: sint_scast32 sint_ucast_fits)
  then show ?thesis by (simp add: word_eq_iff_signed [where ?'a = int])
qed

lemma sint32_range: "- (2^31) \<le> sint (x::int32_t) \<and> sint x < 2^31"
  using sint_range_size[of x] by (simp add: word_size)

lemma compactify_cases:
  assumes "rowindex_compactify h self = Some (q, h1)"
  shows "(q = NULL \<and> h1 = h) \<or>
         (q = self \<and> (\<exists>s r. self = Ptr s \<and> get_hdr h self = Some r \<and>
             hdrs h1 = (hdrs h)[s := r\<lparr>type_ri := RI_ARR32\<rparr>]))"
  using assms unfolding rowindex_compactify_def
  by (auto simp: Let_def split: ptr.splits option.splits if_splits payload.splits buffer.splits)

lemma compactify_not_ARR64:
  assumes "get_hdr h self = Some r" "type_ri r \<noteq> RI_ARR64"
  shows "rowindex_compactify h self = Some (NULL, h)"
  using assms unfolding rowindex_compactify_def
  by (auto simp: get_hdr_def split: ptr.splits)

lemma compactify_idem:
  "Option.bind (compactify_state h self) (\<lambda>h1. compactify_state h1 self) = compactify_state h self"
proof (cases "rowindex_compactify h self")
  case None
  then show ?thesis by (simp add: compactify_state_def)
next
  case (Some res)
  obtain q h1 where res: "res = (q, h1)" by (cases res)
  from compactify_cases [OF Some [unfolded res]]
  show ?thesis
  proof
    assume "q = NULL \<and> h1 = h"
    then show ?thesis using Some res by (simp add: compactify_state_def)
  next
    assume "q = self \<and> (\<exists>s r. self = Ptr s \<and> get_hdr h self = Some r \<and>
             hdrs h1 = (hdrs h)[s := r\<lparr>type_ri := RI_ARR32\<rparr>])"
    then obtain s r where s: "self = Ptr s" "get_hdr h self = Some r"
        "hdrs h1 = (hdrs h)[s := r\<lparr>type_ri := RI_ARR32\<rparr>]" by blast
    then have "get_hdr h1 self = Some (r\<lparr>type_ri := RI_ARR32\<rparr>)"
      by (auto simp: get_hdr_def split: if_splits)
    then have "rowindex_compactify h1 self = Some (NULL, h1)"
      by (rule compactify_not_ARR64) simp
    then show ?thesis using Some res by (simp add: compactify_state_def)
  qed
qed

lemma compactify_success:
  assumes hdr: "get_hdr h self = Some r"
    and len0: "0 \<le> sint (length_ri r)" and ok: "ind_ok h r"
    and rows: "\<forall>js. elems h r = Some js \<longrightarrow> (\<forall>j \<in> set js. 0 \<le>s j \<and> j \<le>s max_ri r)"
    and t: "type_ri r = RI_ARR64"
    and mx: "max_ri r \<le>s INT32_MAX"
    and ln: "length_ri r \<le>s INT32_MAX"
  shows "\<exists>h'. rowindex_compactify h self = Some (self, h') \<and>
           get_hdr h' self = Some (r\<lparr>type_ri := RI_ARR32\<rparr>) \<and>
           elems h' (r\<lparr>type_ri := RI_ARR32\<rparr>) = elems h r \<and>
           (\<forall>p. p \<noteq> self \<longrightarrow> get_hdr h' p = get_hdr h p)"
proof -
  obtain s where s: "self = Ptr s" "s < length (hdrs h)" "r = hdrs h ! s"
    using hdr by (cases self) (auto simp: get_hdr_def split: if_splits)
  let ?n = "nat (sint (length_ri r))"
  let ?r' = "r\<lparr>type_ri := RI_ARR32\<rparr>"
  have len1: "sint (length_ri r) < 2 ^ 31"
    using ln by (simp add: word_sle_eq sint_INT32_MAX)
  have len32: "sint (ucast (length_ri r) :: int32_t) = sint (length_ri r)"
    using len0 len1 by (simp add: sint_ucast_fits)
  have guard: "\<not> (type_ri r \<noteq> RI_ARR64 \<or> INT32_MAX <s max_ri r \<or> INT32_MAX <s length_ri r)"
    using t mx ln by (simp add: word_sle_eq word_sless_alt)
  show ?thesis
  proof (cases "payload r")
    case Uninit
    then show ?thesis using ok by (simp add: ind_ok_def)
  next
    case (Slice a b)
    then show ?thesis using ok by (simp add: ind_ok_def)
  next
    case (Ind p)
    show ?thesis
    proof (cases p)
      case NULL
      then have z: "sint (length_ri r) = 0" using ok Ind len0 by (simp add: ind_ok_def)
      let ?h' = "h\<lparr>hdrs := (hdrs h)[s := ?r']\<rparr>"
      have c: "rowindex_compactify h self = Some (self, ?h')"
        using hdr s guard Ind NULL z len32
        by (simp add: rowindex_compactify_def Let_def word_sless_alt del: disj_not1)
      have "elems ?h' ?r' = Some []" by (rule elems_empty) (simp_all add: z)
      moreover have "elems h r = Some []" by (rule elems_empty) (simp_all add: z t)
      ultimately show ?thesis using c s
        by (auto simp: get_hdr_def split: ptr.splits)
    next
      case (Ptr a)
      then obtain xs where xs: "get_buf h (payload r) = Some (Ind64 xs)" "?n \<le> length xs"
        using ok Ind t by (auto simp: ind_ok_def split: option.splits buffer.splits)
      have a: "a < length (bufs h)"
        using xs Ind Ptr by (simp add: get_buf_def split: if_splits)
      let ?res = "map ucast (take ?n xs) :: int32_t list"
      let ?h' = "h\<lparr>hdrs := (hdrs h)[s := ?r'], bufs := (bufs h)[a := Ind32 ?res]\<rparr>"
      have loop: "compact_loop xs ?n 0 [] = Some ?res"
        using compact_loop_eq [of 0 ?n xs "[]"] xs by simp
      have c: "rowindex_compactify h self = Some (self, ?h')"
        using hdr s guard Ind Ptr xs loop len32
        by (simp add: rowindex_compactify_def Let_def del: disj_not1)
      have e: "elems h r = Some (take ?n xs)"
        using elems_ARR64 [OF t xs(1)] xs(2) by simp
      have bnd: "\<forall>j \<in> set (take ?n xs). 0 \<le>s j \<and> j \<le>s max_ri r"
        using rows e by simp
      have fits: "\<forall>j \<in> set (take ?n xs). scast (ucast j :: int32_t) = j"
      proof
        fix j assume "j \<in> set (take ?n xs)"
        with bnd have "0 \<le> sint j" "sint j \<le> sint (max_ri r)" by (simp_all add: word_sle_eq)
        moreover have "sint (max_ri r) < 2 ^ 31" using mx by (simp add: word_sle_eq sint_INT32_MAX)
        ultimately show "scast (ucast j :: int32_t) = j" by (intro scast_ucast_fits) simp_all
      qed
      have "get_buf ?h' (payload ?r') = Some (Ind32 ?res)"
        using Ind Ptr a by (simp add: get_buf_def)
      from elems_ARR32 [OF _ this]
      have "elems ?h' ?r' = Some (map scast ?res)" using xs(2) by simp
      also have "map scast ?res = take ?n xs"
        using fits by (simp add: map_idI o_def)
      finally have "elems ?h' ?r' = elems h r" using e by simp
      then show ?thesis using c s
        by (auto simp: get_hdr_def split: ptr.splits)
    qed
  qed
qed

text \<open>
  C7. \<open>rowindex_compactify\<close> is idempotent: the heap after two calls on \<open>self\<close> is the
  heap after one (and the second call is undefined only if the first is). On a header
  that is not ARR64, or whose \<open>max\<close> or \<open>length\<close> exceeds \<open>INT32_MAX\<close>, it returns
  \<open>NULL\<close> and the heap is unchanged. On a valid ARR64 within the bounds it returns
  \<open>self\<close>; the header differs only in its type, now ARR32, so \<open>length\<close>, \<open>min\<close> and
  \<open>max\<close> are kept, iterating it produces the same rows, and no other header changes.
\<close>

theorem rowindex_compactify_spec:
  "Option.bind (compactify_state h self) (\<lambda>h1. compactify_state h1 self) = compactify_state h self \<and>
   (get_hdr h self = Some r \<and>
      (type_ri r \<noteq> RI_ARR64 \<or> INT32_MAX <s max_ri r \<or> INT32_MAX <s length_ri r) \<longrightarrow>
      rowindex_compactify h self = Some (NULL, h)) \<and>
   (get_hdr h self = Some r \<and> valid_ri h r \<and> type_ri r = RI_ARR64 \<and>
      max_ri r \<le>s INT32_MAX \<and> length_ri r \<le>s INT32_MAX \<longrightarrow>
      (\<exists>h'. rowindex_compactify h self = Some (self, h') \<and>
           get_hdr h' self = Some (r\<lparr>type_ri := RI_ARR32\<rparr>) \<and>
           elems h' (r\<lparr>type_ri := RI_ARR32\<rparr>) = elems h r \<and>
           (\<forall>p. p \<noteq> self \<longrightarrow> get_hdr h' p = get_hdr h p)))"
proof (intro conjI impI)
  show "Option.bind (compactify_state h self) (\<lambda>h1. compactify_state h1 self) = compactify_state h self"
    by (rule compactify_idem)
next
  assume "get_hdr h self = Some r \<and>
      (type_ri r \<noteq> RI_ARR64 \<or> INT32_MAX <s max_ri r \<or> INT32_MAX <s length_ri r)"
  then show "rowindex_compactify h self = Some (NULL, h)"
    unfolding rowindex_compactify_def by (auto simp: get_hdr_def split: ptr.splits)
next
  assume "get_hdr h self = Some r \<and> valid_ri h r \<and> type_ri r = RI_ARR64 \<and>
      max_ri r \<le>s INT32_MAX \<and> length_ri r \<le>s INT32_MAX"
  then show "\<exists>h'. rowindex_compactify h self = Some (self, h') \<and>
           get_hdr h' self = Some (r\<lparr>type_ri := RI_ARR32\<rparr>) \<and>
           elems h' (r\<lparr>type_ri := RI_ARR32\<rparr>) = elems h r \<and>
           (\<forall>p. p \<noteq> self \<longrightarrow> get_hdr h' p = get_hdr h p)"
    by (intro compactify_success) (auto simp: valid_ri_def)
qed

theorem rowindex_compactify_spec_witness:
  "rowindex_compactify heap_arr64 (Ptr 1) = Some (NULL, heap_arr64) \<and>
   (\<exists>h'. rowindex_compactify heap_arr64 (Ptr 0) = Some (Ptr 0, h') \<and>
         get_hdr h' (Ptr 0) = Some \<lparr>type_ri = RI_ARR32, length_ri = 3, min_ri = 100,
            max_ri = 130, payload = Ind (Ptr 0)\<rparr> \<and>
         elems h' \<lparr>type_ri = RI_ARR32, length_ri = 3, min_ri = 100,
            max_ri = 130, payload = Ind (Ptr 0)\<rparr> = Some [100, 120, 130])"
proof -
  let ?r0 = "\<lparr>type_ri = RI_ARR64, length_ri = 3, min_ri = 100, max_ri = 130,
               payload = Ind (Ptr 0)\<rparr>"
  let ?r1 = "\<lparr>type_ri = RI_ARR64, length_ri = 2, min_ri = 7, max_ri = 2147483648,
               payload = Ind (Ptr 1)\<rparr>"
  have g0: "get_hdr heap_arr64 (Ptr 0) = Some ?r0" by code_simp
  have g1: "get_hdr heap_arr64 (Ptr 1) = Some ?r1" by code_simp
  have v0: "valid_ri heap_arr64 ?r0" by code_simp
  have b0: "max_ri ?r0 \<le>s INT32_MAX" "length_ri ?r0 \<le>s INT32_MAX" by code_simp+
  have b1: "INT32_MAX <s max_ri ?r1" by code_simp
  have e0: "elems heap_arr64 ?r0 = Some [100, 120, 130]" by code_simp
  have t0: "type_ri ?r0 = RI_ARR64" by simp
  have n: "rowindex_compactify heap_arr64 (Ptr 1) = Some (NULL, heap_arr64)"
    using rowindex_compactify_spec [of heap_arr64 "Ptr 1" ?r1] g1 b1 by blast
  have "\<exists>h'. rowindex_compactify heap_arr64 (Ptr 0) = Some (Ptr 0, h') \<and>
           get_hdr h' (Ptr 0) = Some (?r0\<lparr>type_ri := RI_ARR32\<rparr>) \<and>
           elems h' (?r0\<lparr>type_ri := RI_ARR32\<rparr>) = elems heap_arr64 ?r0"
    using rowindex_compactify_spec [of heap_arr64 "Ptr 0" ?r0] g0 v0 b0 t0 by blast
  then show ?thesis using n e0 by simp
qed

lemma slice_interp:
  fixes sa ta k L :: int
  assumes "0 \<le> sa" "sa < B" "0 \<le> sa + ta * (L - 1)" "sa + ta * (L - 1) < B" "0 \<le> k" "k \<le> L - 1"
  shows "0 \<le> sa + ta * k \<and> sa + ta * k < B"
proof (cases "0 \<le> ta")
  case True
  then have "ta * k \<le> ta * (L - 1)" "0 \<le> ta * k" using assms by (simp_all add: mult_left_mono)
  then show ?thesis using assms by linarith
next
  case False
  then have "ta * (L - 1) \<le> ta * k" "ta * k \<le> 0" using assms
    by (simp_all add: mult_left_mono_neg mult_nonpos_nonneg)
  then show ?thesis using assms by linarith
qed

lemma sint_word_expr:
  assumes "(w :: int64_t) = word_of_int k" "- (2 ^ 63) \<le> k" "k < 2 ^ 63"
  shows "sint w = k"
  using assms by (simp add: sint_of_int64)

lemma elems_SLICE:
  assumes "type_ri r = RI_SLICE" "payload r = Slice start step"
  shows "elems h r = Some (map (\<lambda>m. start + of_nat m * step) [0..<nat (sint (length_ri r))])"
  using assms by (simp add: elems_def ITER_ALL_def iter_slice_eq o_def)

lemma slice_row:
  fixes start step :: int64_t
  assumes "0 \<le> sint start" "0 \<le> sint start + sint step * (L - 1)"
    "sint start + sint step * (L - 1) < 2 ^ 63" "int m < L"
  shows "sint (start + of_nat m * step) = sint start + sint step * int m"
proof -
  have "0 \<le> sint start + sint step * int m \<and> sint start + sint step * int m < 2 ^ 63"
    using assms sint64_range[of start] by (intro slice_interp [where L = L]) simp_all
  moreover have "start + of_nat m * step = word_of_int (sint start + sint step * int m)"
    by (simp add: algebra_simps)
  ultimately show ?thesis by (intro sint_word_expr) simp_all
qed

lemma get_hdr_NULL [simp]: "get_hdr h NULL = None"
  by (simp add: get_hdr_def)

lemma get_hdr_alloc [simp]: "get_hdr (snd (alloc_hdr h r)) (fst (alloc_hdr h r)) = Some r"
  by (simp add: alloc_hdr_def get_hdr_def)

lemma merge_slice_slice_aux:
  assumes A: "get_hdr h ri_ab = Some A" and B: "get_hdr h ri_bc = Some B"
    and tA: "type_ri A = RI_SLICE" and pA: "payload A = Slice start_ab step_ab"
    and tB: "type_ri B = RI_SLICE" and pB: "payload B = Slice start_bc step_bc"
    and n: "length_ri B \<noteq> 0"
  shows "rowindex_merge h ri_ab ri_bc = Some (alloc_hdr h
            \<lparr>type_ri = RI_SLICE, length_ri = length_ri B,
             min_ri = (if 0 \<le>s step_ab * step_bc then start_ab + step_ab * start_bc
                       else start_ab + step_ab * start_bc + step_ab * step_bc * (length_ri B - 1)),
             max_ri = (if 0 \<le>s step_ab * step_bc
                       then start_ab + step_ab * start_bc + step_ab * step_bc * (length_ri B - 1)
                       else start_ab + step_ab * start_bc),
             payload = Slice (start_ab + step_ab * start_bc) (step_ab * step_bc)\<rparr>)"
proof -
  have "ri_ab \<noteq> NULL" "ri_bc \<noteq> NULL" using A B by auto
  then show ?thesis using assms
    by (simp add: rowindex_merge_def merge_slice_def Let_def)
qed

text \<open>
  C6. For SLICE headers A (\<open>start_ab\<close>, \<open>step_ab\<close>) and B (\<open>start_bc\<close>, \<open>step_bc\<close>)
  that satisfy the precondition of merge, with \<open>length B = n > 0\<close>, the merge returns
  a new SLICE of length \<open>n\<close> with \<open>start = start_ab + step_ab \<sqdot> start_bc\<close> and
  \<open>step = step_ab \<sqdot> step_bc\<close>. The start does not overflow, nor does the step when
  \<open>n > 1\<close>; \<open>min\<close> and \<open>max\<close> are the two endpoints \<open>start\<close> and
  \<open>start + step \<sqdot> (n - 1)\<close> of the slice, as integers, ordered by the sign of the step.
\<close>

theorem merge_slice_slice:
  assumes A: "get_hdr h ri_ab = Some A" and B: "get_hdr h ri_bc = Some B"
    and tA: "type_ri A = RI_SLICE" and pA: "payload A = Slice start_ab step_ab"
    and tB: "type_ri B = RI_SLICE" and pB: "payload B = Slice start_bc step_bc"
    and pre: "merge_pre h A B" and n: "0 < sint (length_ri B)"
  shows "\<exists>p h' R. rowindex_merge h ri_ab ri_bc = Some (Ptr p, h') \<and>
           get_hdr h' (Ptr p) = Some R \<and> type_ri R = RI_SLICE \<and> length_ri R = length_ri B \<and>
           payload R = Slice (start_ab + step_ab * start_bc) (step_ab * step_bc) \<and>
           sint (start_ab + step_ab * start_bc) = sint start_ab + sint step_ab * sint start_bc \<and>
           (1 < sint (length_ri B) \<longrightarrow>
              sint (step_ab * step_bc) = sint step_ab * sint step_bc) \<and>
           sint (min_ri R) =
             (if 0 \<le> sint step_ab * sint step_bc
              then sint start_ab + sint step_ab * sint start_bc
              else sint start_ab + sint step_ab *
                     (sint start_bc + sint step_bc * (sint (length_ri B) - 1))) \<and>
           sint (max_ri R) =
             (if 0 \<le> sint step_ab * sint step_bc
              then sint start_ab + sint step_ab *
                     (sint start_bc + sint step_bc * (sint (length_ri B) - 1))
              else sint start_ab + sint step_ab * sint start_bc)"
proof -
  let ?n = "sint (length_ri B)" and ?L = "sint (length_ri A)"
  let ?sa = "sint start_ab" and ?ta = "sint step_ab"
  let ?sb = "sint start_bc" and ?tb = "sint step_bc"
  let ?start = "start_ab + step_ab * start_bc" and ?step = "step_ab * step_bc"
  let ?endw = "?start + ?step * (length_ri B - 1)"
  let ?eb = "?sb + ?tb * (?n - 1)"
  have vA: "valid_ri h A" and vB: "valid_ri h B" using pre by (simp_all add: merge_pre_def)
  have n0: "length_ri B \<noteq> 0" using n by auto
  \<comment> \<open>the slice B\<close>
  have sb0: "0 \<le> ?sb" and eb0: "0 \<le> ?eb" and eb1: "?eb < 2 ^ 63"
    using vB tB pB n by (simp_all add: valid_ri_def)
  let ?m = "nat (?n - 1)"
  have eB: "elems h B = Some (map (\<lambda>m. start_bc + of_nat m * step_bc) [0..<nat ?n])"
    by (rule elems_SLICE [OF tB pB])
  have in0: "start_bc \<in> set (map (\<lambda>m. start_bc + of_nat m * step_bc) [0..<nat ?n])"
    using n by (auto simp: image_iff intro!: bexI [where x = 0])
  have inl: "start_bc + of_nat ?m * step_bc \<in> set (map (\<lambda>m. start_bc + of_nat m * step_bc) [0..<nat ?n])"
    using n by (auto simp: image_iff intro!: bexI [where x = ?m])
  have last: "sint (start_bc + of_nat ?m * step_bc) = ?eb"
    using slice_row [of start_bc step_bc ?n ?m] sb0 eb0 eb1 n by simp
  have sbL: "?sb < ?L" using pre eB in0 by (auto simp: merge_pre_def word_sless_alt)
  have ebL: "?eb < ?L" using pre eB inl last by (auto simp: merge_pre_def word_sless_alt)
  \<comment> \<open>the slice A\<close>
  have L: "0 < ?L" using sb0 sbL by simp
  have sa0: "0 \<le> ?sa" and ea0: "0 \<le> ?sa + ?ta * (?L - 1)" and ea1: "?sa + ?ta * (?L - 1) < 2 ^ 63"
    using vA tA pA L by (simp_all add: valid_ri_def)
  have sa1: "?sa < 2 ^ 63" using sint64_range [of start_ab] by simp
  have r0: "0 \<le> ?sa + ?ta * ?sb \<and> ?sa + ?ta * ?sb < 2 ^ 63"
    using sa0 sa1 ea0 ea1 sb0 sbL by (intro slice_interp [where L = ?L]) simp_all
  have r1: "0 \<le> ?sa + ?ta * ?eb \<and> ?sa + ?ta * ?eb < 2 ^ 63"
    using sa0 sa1 ea0 ea1 eb0 ebL by (intro slice_interp [where L = ?L]) simp_all
  have s: "sint ?start = ?sa + ?ta * ?sb"
    using r0 by (intro sint_word_expr) simp_all
  have "?endw = word_of_int (?sa + ?ta * ?eb)" by (simp add: algebra_simps)
  then have e: "sint ?endw = ?sa + ?ta * ?eb"
    using r1 by (intro sint_word_expr) simp_all
  have d: "?sa + ?ta * ?eb = ?sa + ?ta * ?sb + (?ta * ?tb) * (?n - 1)"
    by (simp add: algebra_simps)
  have st: "sint ?step = ?ta * ?tb" if "1 < ?n"
  proof -
    have "\<bar>(?ta * ?tb) * (?n - 1)\<bar> < 2 ^ 63" using r0 r1 d by linarith
    moreover have "\<bar>?ta * ?tb\<bar> * 1 \<le> \<bar>?ta * ?tb\<bar> * \<bar>?n - 1\<bar>"
      using that by (intro mult_left_mono) simp_all
    ultimately have "\<bar>?ta * ?tb\<bar> < 2 ^ 63" by (simp add: abs_mult)
    then show ?thesis by (intro sint_word_expr) simp_all
  qed
  have same: "?sa + ?ta * ?eb = ?sa + ?ta * ?sb" if "\<not> 1 < ?n"
  proof -
    have "?n = 1" using n that by simp
    then show ?thesis by simp
  qed
  let ?R = "\<lparr>type_ri = RI_SLICE, length_ri = length_ri B,
             min_ri = (if 0 \<le>s ?step then ?start else ?endw),
             max_ri = (if 0 \<le>s ?step then ?endw else ?start),
             payload = Slice ?start ?step\<rparr>"
  have mn: "sint (min_ri ?R) = (if 0 \<le> ?ta * ?tb then ?sa + ?ta * ?sb else ?sa + ?ta * ?eb)"
    using s e st same by (cases "1 < ?n") (simp_all add: word_sle_eq)
  have mx: "sint (max_ri ?R) = (if 0 \<le> ?ta * ?tb then ?sa + ?ta * ?eb else ?sa + ?ta * ?sb)"
    using s e st same by (cases "1 < ?n") (simp_all add: word_sle_eq)
  have m: "rowindex_merge h ri_ab ri_bc = Some (alloc_hdr h ?R)"
    by (rule merge_slice_slice_aux [OF A B tA pA tB pB n0])
  obtain p h' where al: "alloc_hdr h ?R = (Ptr p, h')" by (simp add: alloc_hdr_def)
  then have g: "get_hdr h' (Ptr p) = Some ?R" using get_hdr_alloc [of h ?R] by simp
  show ?thesis
    apply (rule exI [where x = p], rule exI [where x = h'], rule exI [where x = ?R])
    using m al g s st mn mx by simp
qed

theorem merge_slice_slice_witness:
  "\<exists>p h' R. rowindex_merge heap_slices (Ptr 0) (Ptr 1) = Some (Ptr p, h') \<and>
      get_hdr h' (Ptr p) = Some R \<and> type_ri R = RI_SLICE \<and> length_ri R = 2 \<and>
      payload R = Slice 110 20 \<and> sint (min_ri R) = 110 \<and> sint (max_ri R) = 130"
proof -
  let ?A = "\<lparr>type_ri = RI_SLICE, length_ri = 4, min_ri = 100, max_ri = 130,
               payload = Slice 100 10\<rparr>"
  let ?B = "\<lparr>type_ri = RI_SLICE, length_ri = 2, min_ri = 1, max_ri = 3,
               payload = Slice 1 2\<rparr>"
  have A: "get_hdr heap_slices (Ptr 0) = Some ?A" by code_simp
  have B: "get_hdr heap_slices (Ptr 1) = Some ?B" by code_simp
  have pre: "merge_pre heap_slices ?A ?B" by code_simp
  have n: "0 < sint (length_ri ?B)" by simp
  show ?thesis
    using merge_slice_slice [OF A B _ _ _ _ pre n, of 100 10 1 2] by simp
qed

lemma memcpy_Uninit [simp]: "memcpy_ind h Uninit src n = None"
  by (simp add: memcpy_ind_def)

text \<open>
  C3. With \<open>ri_ab = NULL\<close> and a non-empty ARR32 or ARR64 \<open>ri_bc\<close>, the code never
  allocates an array for the result: it copies the array of \<open>ri_bc\<close> through the
  pointer \<open>res->ind32\<close>, which has not been assigned. The call has no defined result,
  so no clone with an array of its own is returned.
\<close>

theorem merge_null_ab_arr:
  assumes "get_hdr h ri_bc = Some B" "type_ri B \<noteq> RI_SLICE" "length_ri B \<noteq> 0"
  shows "rowindex_merge h NULL ri_bc = None"
proof -
  have "ri_bc \<noteq> NULL" using assms by auto
  then show ?thesis using assms
    by (cases "type_ri B") (simp_all add: rowindex_merge_def merge_arr_def Let_def)
qed

theorem merge_null_ab_arr_witness:
  "rowindex_merge heap_arr32 NULL (Ptr 0) = None"
proof -
  have "get_hdr heap_arr32 (Ptr 0) = Some \<lparr>type_ri = RI_ARR32, length_ri = 3, min_ri = 3,
      max_ri = 9, payload = Ind (Ptr 0)\<rparr>" by code_simp
  from merge_null_ab_arr [OF this] show ?thesis by simp
qed

lemma merge_null_ab_slice:
  assumes "get_hdr h ri_bc = Some B" "type_ri B = RI_SLICE" "payload B = Slice start step"
    "length_ri B \<noteq> 0"
  shows "rowindex_merge h NULL ri_bc = Some (alloc_hdr h
      \<lparr>type_ri = RI_SLICE, length_ri = length_ri B, min_ri = min_ri B,
       max_ri = max_ri B, payload = Slice start step\<rparr>)"
proof -
  have "ri_bc \<noteq> NULL" using assms by auto
  then show ?thesis using assms
    by (simp add: rowindex_merge_def merge_slice_def Let_def)
qed


lemma extends_refl [simp]: "extends h h"
  by (simp add: extends_def)

lemma alloc_hdr_frame:
  "alloc_hdr h r = (q, h') \<Longrightarrow> q = Ptr (length (hdrs h)) \<and> hdrs h' = hdrs h @ [r] \<and> bufs h' = bufs h"
  by (auto simp: alloc_hdr_def)

lemma alloc_buf_frame:
  "alloc_buf h b = (q, h') \<Longrightarrow> q = Ptr (length (bufs h)) \<and> bufs h' = bufs h @ [b] \<and> hdrs h' = hdrs h"
  by (auto simp: alloc_buf_def)

lemma compactify_frame:
  assumes "rowindex_compactify h (Ptr s) = Some (q, h1)"
  shows "\<exists>r. get_hdr h (Ptr s) = Some r \<and>
           (hdrs h1 = hdrs h \<or> hdrs h1 = (hdrs h)[s := r\<lparr>type_ri := RI_ARR32\<rparr>]) \<and>
           (bufs h1 = bufs h \<or> (\<exists>a b. payload r = Ind (Ptr a) \<and> bufs h1 = (bufs h)[a := b]))"
  using assms unfolding rowindex_compactify_def
  by (auto simp: Let_def split: option.splits if_splits payload.splits buffer.splits ptr.splits)

lemma finish_arr64_frame:
  assumes "finish_arr64 h n rows mn mx = Some (q, h')"
  shows "q = Ptr (length (hdrs h)) \<and> extends h h' \<and> length (hdrs h') = Suc (length (hdrs h))"
proof -
  let ?h1 = "h\<lparr>bufs := bufs h @ [Ind64 rows]\<rparr>"
  let ?r = "\<lparr>type_ri = RI_ARR64, length_ri = n, min_ri = mn, max_ri = mx,
             payload = Ind (Ptr (length (bufs h)))\<rparr>"
  let ?h2 = "?h1\<lparr>hdrs := hdrs h @ [?r]\<rparr>"
  from assms obtain x where c: "rowindex_compactify ?h2 (Ptr (length (hdrs h))) = Some (x, h')"
    and q: "q = Ptr (length (hdrs h))"
    by (auto simp: finish_arr64_def alloc_buf_def alloc_hdr_def split: option.splits)
  from compactify_frame [OF c] have
    hd: "hdrs h' = hdrs ?h2 \<or> hdrs h' = (hdrs ?h2)[length (hdrs h) := ?r\<lparr>type_ri := RI_ARR32\<rparr>]"
    and bf: "bufs h' = bufs ?h2 \<or> (\<exists>b. bufs h' = (bufs ?h2)[length (bufs h) := b])"
    by (auto simp: get_hdr_def)
  from hd have "take (length (hdrs h)) (hdrs h') = hdrs h \<and> length (hdrs h') = Suc (length (hdrs h))"
    by auto
  moreover from bf have "take (length (bufs h)) (bufs h') = bufs h" by auto
  ultimately show ?thesis using q by (simp add: extends_def)
qed

lemma finish_arr32_frame:
  assumes "finish_arr32 h n rows mn mx = Some (q, h')"
  shows "q = Ptr (length (hdrs h)) \<and> extends h h' \<and> length (hdrs h') = Suc (length (hdrs h))"
  using assms by (auto simp: finish_arr32_def alloc_buf_def alloc_hdr_def extends_def)

lemma alloc_hdr_frame':
  assumes "Some (alloc_hdr h r) = Some (q, h')"
  shows "q = Ptr (length (hdrs h)) \<and> extends h h' \<and> length (hdrs h') = Suc (length (hdrs h))"
  using assms by (auto simp: alloc_hdr_def extends_def)

lemma alloc_hdr_frame2:
  assumes "alloc_hdr h r = (q, h')"
  shows "q = Ptr (length (hdrs h)) \<and> extends h h' \<and> length (hdrs h') = Suc (length (hdrs h))"
  using assms by (auto simp: alloc_hdr_def extends_def)

lemma merge_slice_frame:
  assumes "merge_slice h ab bc = Some (q, h')"
  shows "q = Ptr (length (hdrs h)) \<and> extends h h' \<and> length (hdrs h') = Suc (length (hdrs h))"
  using assms unfolding merge_slice_def Let_def
  by (auto split: payload.splits option.splits if_splits prod.splits
      dest!: finish_arr64_frame finish_arr32_frame alloc_hdr_frame' simp del: option.inject)

lemma merge_arr_frame:
  assumes "merge_arr h ab bc = Some (q, h')"
  shows "q = Ptr (length (hdrs h)) \<and> extends h h' \<and> length (hdrs h') = Suc (length (hdrs h))"
  using assms unfolding merge_arr_def Let_def
  by (auto split: payload.splits option.splits if_splits prod.splits
      dest!: finish_arr64_frame finish_arr32_frame alloc_hdr_frame' simp del: option.inject)

lemma extends_get_hdr:
  assumes "extends h h'" "get_hdr h p = Some r"
  shows "get_hdr h' p = Some r"
proof -
  obtain s where s: "p = Ptr s" "s < length (hdrs h)" "r = hdrs h ! s"
    using assms(2) by (cases p) (auto simp: get_hdr_def split: if_splits)
  have t: "take (length (hdrs h)) (hdrs h') = hdrs h" using assms(1) by (simp add: extends_def)
  then have "length (hdrs h) \<le> length (hdrs h')"
    by (metis length_take min.cobounded1)
  moreover have "hdrs h' ! s = hdrs h ! s" using t s(2) by (metis nth_take)
  ultimately show ?thesis using s by (simp add: get_hdr_def)
qed

lemma extends_get_buf:
  assumes "extends h h'" "get_buf h pl = Some b"
  shows "get_buf h' pl = Some b"
proof -
  obtain a where a: "pl = Ind (Ptr a)" "a < length (bufs h)" "b = bufs h ! a"
    using assms(2) by (auto simp: get_buf_def split: payload.splits ptr.splits if_splits)
  have t: "take (length (bufs h)) (bufs h') = bufs h" using assms(1) by (simp add: extends_def)
  then have "length (bufs h) \<le> length (bufs h')"
    by (metis length_take min.cobounded1)
  moreover have "bufs h' ! a = bufs h ! a" using t a(2) by (metis nth_take)
  ultimately show ?thesis using a by (simp add: get_buf_def)
qed

text \<open>
  C2. Range tightness fails for \<open>rowindex_from_column_with_rowindex\<close>. For the view
  of the rows 3 and 4 and a column that is true there, the function stores the
  positions 0 and 1, so iterating the result produces 0 and 1, and sets \<open>min\<close> to 0,
  but sets \<open>max\<close> to 4, the last source row visited: \<open>max\<close> is not the largest
  produced index, nor any produced index.
\<close>

theorem from_column_with_rowindex_max:
  "\<exists>h' R. rowindex_from_column_with_rowindex heap_view col_view (Ptr 0) = Some (Ptr 1, h') \<and>
      get_hdr h' (Ptr 1) = Some R \<and> elems h' R = Some [0, 1] \<and>
      min_ri R = 0 \<and> max_ri R = 4 \<and> max_ri R \<notin> set [0, 1]"
proof -
  let ?R = "\<lparr>type_ri = RI_ARR32, length_ri = 2, min_ri = 0, max_ri = 4, payload = Ind (Ptr 0)\<rparr>"
  let ?h' = "\<lparr>hdrs = hdrs heap_view @ [?R], bufs = [Ind32 [0, 1]]\<rparr>"
  have "rowindex_from_column_with_rowindex heap_view col_view (Ptr 0) = Some (Ptr 1, ?h')"
    by code_simp
  moreover have "get_hdr ?h' (Ptr 1) = Some ?R" by code_simp
  moreover have "elems ?h' ?R = Some [0, 1]" by code_simp
  ultimately show ?thesis by (intro exI [where x = ?h'] exI [where x = ?R]) simp
qed

lemma run_count:
  assumes "\<forall>(i, j) \<in> set ps. at_list dat (sint j) \<noteq> None"
  shows "run_code (count_code dat) ps (c, mr) =
     Some (c + of_nat (length (filter (\<lambda>(i, j). at_list dat (sint j) = Some 1) ps)),
           if filter (\<lambda>(i, j). at_list dat (sint j) = Some 1) ps = [] then mr
           else snd (last (filter (\<lambda>(i, j). at_list dat (sint j) = Some 1) ps)))"
  using assms
proof (induction ps arbitrary: c mr)
  case Nil
  then show ?case by simp
next
  case (Cons p ps)
  obtain i j where p: "p = (i, j)" by (cases p)
  from Cons.prems obtain d where d: "at_list dat (sint j) = Some d" by (auto simp: p)
  show ?case
    using Cons.IH [of "if d = 1 then c + 1 else c" "if d = 1 then j else mr"] Cons.prems
    by (auto simp: p d count_code_def)
qed

lemma run_emit:
  assumes "\<forall>(i, j) \<in> set ps. at_list dat (sint j) \<noteq> None"
  shows "run_code (emit_code dat) ps acc =
     Some (acc @ map (\<lambda>(i, j). of_nat i) (filter (\<lambda>(i, j). at_list dat (sint j) = Some 1) ps))"
  using assms
proof (induction ps arbitrary: acc)
  case Nil
  then show ?case by simp
next
  case (Cons p ps)
  obtain i j where p: "p = (i, j)" by (cases p)
  from Cons.prems obtain d where d: "at_list dat (sint j) = Some d" by (auto simp: p)
  show ?case
    using Cons.IH [of "if d = 1 then acc @ [of_nat i] else acc"] Cons.prems
    by (auto simp: p d emit_code_def)
qed

lemma rev_row:
  fixes N m :: nat
  assumes "m \<le> N" "int N < 2 ^ 63"
  shows "sint ((of_nat N :: int64_t) - of_nat m) = int (N - m)"
proof -
  have "(of_nat N :: int64_t) - of_nat m = word_of_int (int (N - m))"
    using assms by simp
  moreover have "int (N - m) \<le> int N" by simp
  then have "int (N - m) < 2 ^ 63" using assms by linarith
  ultimately show ?thesis by (intro sint_word_expr) simp_all
qed

lemma rev_byte:
  fixes N m :: nat
  assumes "m \<le> N" "int N < 2 ^ 63"
  shows "at_list (1 # replicate N (0 :: int8_t)) (sint ((of_nat N :: int64_t) - of_nat m))
           = Some (if m = N then 1 else 0)"
  using assms by (simp add: rev_row at_list_def nth_Cons')

lemma rev_sel:
  fixes N :: nat
  assumes "int N < 2 ^ 63"
  shows "filter (\<lambda>(i, j). at_list (1 # replicate N (0 :: int8_t)) (sint j) = Some 1)
           (map (\<lambda>m. (m, (of_nat N :: int64_t) - of_nat m)) [0..<Suc N])
         = [(N, 0)]"
proof -
  let ?P = "\<lambda>(i :: nat, j). at_list (1 # replicate N (0 :: int8_t)) (sint j) = Some 1"
  let ?f = "\<lambda>m. (m, (of_nat N :: int64_t) - of_nat m)"
  have "\<forall>m \<in> set [0..<N]. \<not> ?P (?f m)" using assms by (simp add: rev_byte)
  then have "filter ?P (map ?f [0..<N]) = []" by (simp add: filter_empty_conv)
  moreover have "?P (?f N)" using rev_byte [of N N] assms by simp
  ultimately show ?thesis by (simp del: upt_Suc add: upt_Suc_append)
qed

lemma rev_inb:
  fixes N :: nat
  assumes "int N < 2 ^ 63"
  shows "\<forall>(i, j) \<in> set (map (\<lambda>m. (m, (of_nat N :: int64_t) - of_nat m)) [0..<Suc N]).
           at_list (1 # replicate N (0 :: int8_t)) (sint j) \<noteq> None"
  using assms by (auto simp: rev_byte less_Suc_eq_le simp del: upt_Suc)

lemma rev_n:
  fixes N :: nat
  assumes N: "int (Suc N) < 2 ^ 63"
  shows "nat (sint (of_nat (Suc N) :: int64_t)) = Suc N"
proof -
  have "sint (word_of_int (int (Suc N)) :: int64_t) = int (Suc N)"
    using N by (intro sint_of_int64) simp_all
  then show ?thesis by (simp del: of_nat_Suc)
qed

lemma rev_iter: "iter_slice (Suc N) 0 (of_nat N) (- 1) = map (\<lambda>m. (m, (of_nat N :: int64_t) - of_nat m)) [0..<Suc N]"
    unfolding iter_slice_eq by (simp del: upt_Suc)

lemma from_column_rev:
  fixes N :: nat
  assumes N: "int (Suc N) < 2 ^ 63"
  defines "h \<equiv> \<lparr>hdrs = [\<lparr>type_ri = RI_SLICE, length_ri = of_nat (Suc N), min_ri = 0,
               max_ri = of_nat N, payload = Slice (of_nat N) (- 1)\<rparr>], bufs = []\<rparr>"
  shows "rowindex_from_column_with_rowindex h
           \<lparr>stype = ST_BOOLEAN_I1, data = 1 # replicate N 0\<rparr> (Ptr 0) =
         Some (Ptr 1, \<lparr>hdrs = hdrs h @ [\<lparr>type_ri = RI_ARR32, length_ri = 1,
               min_ri = scast (of_nat N :: int32_t), max_ri = 0, payload = Ind (Ptr 0)\<rparr>],
            bufs = [Ind32 [of_nat N]]\<rparr>)"
proof -
  let ?ps = "map (\<lambda>m. (m, (of_nat N :: int64_t) - of_nat m)) [0..<Suc N]"
  let ?dat = "1 # replicate N (0 :: int8_t)"
  let ?ri = "\<lparr>type_ri = RI_SLICE, length_ri = of_nat (Suc N), min_ri = 0,
               max_ri = of_nat N, payload = Slice (of_nat N) (- 1)\<rparr>"
  have N': "int N < 2 ^ 63" using N by simp
  have g: "get_hdr h (Ptr 0) = Some ?ri" by (simp add: h_def get_hdr_def)
  have it: "ITER_ALL h ?ri = Some ?ps"
    unfolding ITER_ALL_def Let_def
    by (simp only: RowIndex.simps RowIndexType.case payload.case rev_n [OF N] rev_iter)
  have cnt: "run_code (count_code ?dat) ?ps (0, 0) = Some (1, 0)"
    unfolding run_count [OF rev_inb [OF N']] rev_sel [OF N'] by simp
  have em: "run_code (emit_code ?dat) ?ps ([] :: int32_t list) = Some [of_nat N]"
    unfolding run_emit [OF rev_inb [OF N']] rev_sel [OF N'] by simp
  have b: "(1 :: int64_t) \<le>s INT32_MAX \<and> (0 :: int64_t) \<le>s INT32_MAX"
    by (simp add: INT32_MAX_def word_sle_eq)
  show ?thesis
    unfolding rowindex_from_column_with_rowindex_def g
    apply (simp only: Column.simps SType.simps if_False option.case refl it cnt em prod.case b)
    apply (simp add: at_list_def alloc_buf_def alloc_hdr_def h_def)
    done
qed

text \<open>
  C8. The emitted value is not always the position \<open>i\<close>. For the reversed view of
  \<open>2\<^sup>3\<^sup>1 + 1\<close> rows and a column that is true at row 0 only, the one selected pair is
  \<open>(i, j) = (2\<^sup>3\<^sup>1, 0)\<close>. The function chooses the 32-bit array, since \<open>maxrow = 0\<close>
  and \<open>nouts = 1\<close>, and stores \<open>(int32_t) i\<close>: iterating the result produces
  \<open>-2\<^sup>3\<^sup>1\<close>, which is not a position of the view.
\<close>

theorem from_column_with_rowindex_wraps:
  "\<exists>h' R. rowindex_from_column_with_rowindex heap_rev col_rev (Ptr 0) = Some (Ptr 1, h') \<and>
      get_hdr h' (Ptr 1) = Some R \<and> type_ri R = RI_ARR32 \<and> length_ri R = 1 \<and>
      elems h' R = Some [- 2147483648]"
proof -
  let ?R = "\<lparr>type_ri = RI_ARR32, length_ri = 1, min_ri = - 2147483648, max_ri = 0,
             payload = Ind (Ptr 0)\<rparr>"
  let ?h' = "\<lparr>hdrs = hdrs heap_rev @ [?R], bufs = [Ind32 [2147483648]]\<rparr>"
  have "int (Suc 2147483648) < 2 ^ 63" by simp
  from from_column_rev [OF this]
  have "rowindex_from_column_with_rowindex heap_rev col_rev (Ptr 0) = Some (Ptr 1, ?h')"
    by (simp add: heap_rev_def col_rev_def)
  moreover have "get_hdr ?h' (Ptr 1) = Some ?R" by (simp add: get_hdr_def heap_rev_def)
  moreover have "elems ?h' ?R = Some [- 2147483648]" by code_simp
  ultimately show ?thesis by (intro exI [where x = ?h'] exI [where x = ?R]) simp
qed

lemma iter_ind_length: "iter_ind rd k i = Some ps \<Longrightarrow> length ps = k"
  by (induction k arbitrary: i ps) (auto split: option.splits)

lemma fold_gather_step:
  "fold gather_step xs (rows, mn, mx) =
     (rows @ xs, fold (\<lambda>x m. if x <s m then x else m) xs mn,
      fold (\<lambda>x m. if m <s x then x else m) xs mx)"
  by (induction xs arbitrary: rows mn mx) (simp_all add: gather_step_def)

lemma fold_smax_ge: "mx \<le>s fold (\<lambda>x m. if m <s x then x else m) xs mx"
proof (induction xs arbitrary: mx)
  case Nil
  then show ?case by simp
next
  case (Cons x xs)
  have "mx \<le>s (if mx <s x then x else mx)" by (simp add: word_sle_eq word_sless_alt)
  also have "\<dots> \<le>s fold (\<lambda>x m. if m <s x then x else m) xs (if mx <s x then x else mx)"
    by (rule Cons.IH)
  finally show ?case by simp
qed

lemma fold_smax_bound: "x \<in> set xs \<Longrightarrow> x \<le>s fold (\<lambda>x m. if m <s x then x else m) xs mx"
proof (induction xs arbitrary: mx)
  case Nil
  then show ?case by simp
next
  case (Cons y ys)
  show ?case
  proof (cases "x = y")
    case True
    have "y \<le>s (if mx <s y then y else mx)" by (simp add: word_sle_eq word_sless_alt)
    also have "\<dots> \<le>s fold (\<lambda>x m. if m <s x then x else m) ys (if mx <s y then y else mx)"
      by (rule fold_smax_ge)
    finally show ?thesis using True by simp
  next
    case False
    then show ?thesis using Cons by simp
  qed
qed

lemma gather_slice_eq:
  assumes "\<forall>m < k. rd (sint (ic + of_nat m * step)) = Some (f (ic + of_nat m * step))"
  shows "gather_slice rd k ic step acc =
           Some (fold gather_step (map (\<lambda>m. f (ic + of_nat m * step)) [0..<k]) acc)"
  using assms
proof (induction k arbitrary: ic acc)
  case 0
  then show ?case by simp
next
  case (Suc k)
  have h0: "rd (sint ic) = Some (f ic)" using Suc.prems [rule_format, of 0] by simp
  have "\<forall>m < k. rd (sint (ic + step + of_nat m * step)) = Some (f (ic + step + of_nat m * step))"
  proof (intro allI impI)
    fix m assume "m < k"
    then have "Suc m < Suc k" by simp
    then have "rd (sint (ic + of_nat (Suc m) * step)) = Some (f (ic + of_nat (Suc m) * step))"
      using Suc.prems by blast
    then show "rd (sint (ic + step + of_nat m * step)) = Some (f (ic + step + of_nat m * step))"
      by (simp add: algebra_simps)
  qed
  from Suc.IH [OF this]
  have "gather_slice rd k (ic + step) step (gather_step (f ic) acc) =
      Some (fold gather_step (map (\<lambda>m. f (ic + step + of_nat m * step)) [0..<k]) (gather_step (f ic) acc))" .
  moreover have "map (\<lambda>m. f (ic + of_nat m * step)) [0..<Suc k] =
      f ic # map (\<lambda>m. f (ic + step + of_nat m * step)) [0..<k]"
    by (simp add: upt_conv_Cons map_Suc_upt [symmetric] algebra_simps del: upt_Suc)
  ultimately show ?case using h0 by (simp del: upt_Suc)
qed

lemma gather_ind_eq:
  assumes "iter_ind rows_bc k i = Some ps"
    and "\<forall>b \<in> set (map snd ps). rows_ab (sint b) = Some (f b)"
  shows "gather_ind rows_ab rows_bc k i acc = Some (fold gather_step (map f (map snd ps)) acc)"
  using assms
proof (induction k arbitrary: i ps acc)
  case 0
  then show ?case by simp
next
  case (Suc k)
  from Suc.prems(1) obtain b ps' where b: "rows_bc (int i) = Some b"
    and ps': "iter_ind rows_bc k (Suc i) = Some ps'" and ps: "ps = (i, b) # ps'"
    by (auto split: option.splits)
  have "rows_ab (sint b) = Some (f b)" using Suc.prems(2) ps by simp
  moreover have "\<forall>b \<in> set (map snd ps'). rows_ab (sint b) = Some (f b)"
    using Suc.prems(2) ps by simp
  ultimately show ?case using Suc.IH [OF ps'] b ps by simp
qed

lemma affine_loop_eq:
  assumes "iter_ind rows_bc k i = Some ps"
  shows "affine_loop rows_bc start_ab step_ab k i rowsres =
           Some (rowsres @ map (\<lambda>b. start_ab + b * step_ab) (map snd ps))"
  using assms
proof (induction k arbitrary: i ps rowsres)
  case 0
  then show ?case by simp
next
  case (Suc k)
  from Suc.prems(1) obtain b ps' where b: "rows_bc (int i) = Some b"
    and ps': "iter_ind rows_bc k (Suc i) = Some ps'" and ps: "ps = (i, b) # ps'"
    by (auto split: option.splits)
  show ?case using Suc.IH [OF ps'] b ps by simp
qed

lemma get_buf_alloc:
  "get_buf (h\<lparr>bufs := bufs h @ [b]\<rparr>) (Ind (Ptr (length (bufs h)))) = Some b"
  by (simp add: get_buf_def)

lemma finish_arr32_elems:
  assumes "length rows = nat (sint n)"
  shows "\<exists>p h' R. finish_arr32 h n rows mn mx = Some (Ptr p, h') \<and> get_hdr h' (Ptr p) = Some R \<and>
           length_ri R = n \<and> elems h' R = Some (map scast rows)"
proof -
  let ?R = "\<lparr>type_ri = RI_ARR32, length_ri = n, min_ri = scast mn, max_ri = scast mx,
             payload = Ind (Ptr (length (bufs h)))\<rparr>"
  let ?h' = "h\<lparr>bufs := bufs h @ [Ind32 rows], hdrs := hdrs h @ [?R]\<rparr>"
  have f: "finish_arr32 h n rows mn mx = Some (Ptr (length (hdrs h)), ?h')"
    by (simp add: finish_arr32_def alloc_buf_def alloc_hdr_def)
  have g: "get_hdr ?h' (Ptr (length (hdrs h))) = Some ?R" by (simp add: get_hdr_def)
  have "get_buf ?h' (payload ?R) = Some (Ind32 rows)" by (simp add: get_buf_def)
  from elems_ARR32 [OF _ this] have "elems ?h' ?R = Some (map scast rows)"
    using assms by simp
  then show ?thesis using f g by (intro exI [where x = ?h'] exI [where x = ?R] exI) simp
qed

lemma finish_arr64_elems:
  assumes len: "length rows = nat (sint n)" and n0: "0 \<le> sint n"
    and bnd: "\<forall>x \<in> set rows. 0 \<le>s x \<and> x \<le>s mx"
  shows "\<exists>p h' R. finish_arr64 h n rows mn mx = Some (Ptr p, h') \<and> get_hdr h' (Ptr p) = Some R \<and>
           length_ri R = n \<and> elems h' R = Some rows"
proof -
  let ?R = "\<lparr>type_ri = RI_ARR64, length_ri = n, min_ri = mn, max_ri = mx,
             payload = Ind (Ptr (length (bufs h)))\<rparr>"
  let ?h2 = "h\<lparr>bufs := bufs h @ [Ind64 rows], hdrs := hdrs h @ [?R]\<rparr>"
  let ?res = "Ptr (length (hdrs h))"
  have f: "finish_arr64 h n rows mn mx =
      (case rowindex_compactify ?h2 ?res of None \<Rightarrow> None | Some (x, h3) \<Rightarrow> Some (?res, h3))"
    by (simp add: finish_arr64_def alloc_buf_def alloc_hdr_def split: option.splits)
  have g: "get_hdr ?h2 ?res = Some ?R" by (simp add: get_hdr_def)
  have b: "get_buf ?h2 (payload ?R) = Some (Ind64 rows)" by (simp add: get_buf_def)
  from elems_ARR64 [OF _ b] have e: "elems ?h2 ?R = Some rows" using len by simp
  show ?thesis
  proof (cases "INT32_MAX <s mx \<or> INT32_MAX <s n")
    case True
    then have "rowindex_compactify ?h2 ?res = Some (NULL, ?h2)"
      using g unfolding rowindex_compactify_def by (auto simp: get_hdr_def)
    then show ?thesis using f g e
      by (intro exI [where x = ?h2] exI [where x = ?R] exI) simp
  next
    case False
    then have mx: "max_ri ?R \<le>s INT32_MAX" and ln: "length_ri ?R \<le>s INT32_MAX"
      by (simp_all add: word_sle_eq word_sless_alt)
    have ok: "ind_ok ?h2 ?R" using len by (simp add: ind_ok_def get_buf_def)
    have rows: "\<forall>js. elems ?h2 ?R = Some js \<longrightarrow> (\<forall>j \<in> set js. 0 \<le>s j \<and> j \<le>s max_ri ?R)"
      using e bnd by simp
    from compactify_success [OF g _ ok rows _ mx ln] n0
    obtain h3 where c: "rowindex_compactify ?h2 ?res = Some (?res, h3)"
      and g3: "get_hdr h3 ?res = Some (?R\<lparr>type_ri := RI_ARR32\<rparr>)"
      and e3: "elems h3 (?R\<lparr>type_ri := RI_ARR32\<rparr>) = elems ?h2 ?R"
      by auto
    show ?thesis using f c g3 e3 e
      by (intro exI [where x = h3] exI [where x = "?R\<lparr>type_ri := RI_ARR32\<rparr>"] exI) simp
  qed
qed

text \<open>Reading a position of an array index.\<close>

lemma of_nat_nat_sint:
  fixes b :: int64_t
  assumes "0 \<le> sint b"
  shows "of_nat (nat (sint b)) = b"
  using assms by simp

lemma read_ARR64:
  assumes t: "type_ri A = RI_ARR64" and ok: "ind_ok h A" and e: "elems h A = Some as"
    and k: "0 \<le> k" "k < sint (length_ri A)"
  shows "at64 h (payload A) k = Some (as ! nat k)"
proof -
  let ?n = "nat (sint (length_ri A))"
  from ok t k obtain xs where xs: "get_buf h (payload A) = Some (Ind64 xs)" "?n \<le> length xs"
    by (auto simp: ind_ok_def split: payload.splits ptr.splits option.splits buffer.splits)
  from elems_ARR64 [OF t xs(1)] e xs(2) have "as = take ?n xs" by simp
  then show ?thesis using xs k by (simp add: at64_def at_list_def)
qed

lemma read_ARR32:
  assumes t: "type_ri A = RI_ARR32" and ok: "ind_ok h A" and e: "elems h A = Some as"
    and k: "0 \<le> k" "k < sint (length_ri A)"
  shows "\<exists>x. at32 h (payload A) k = Some x \<and> scast x = as ! nat k"
proof -
  let ?n = "nat (sint (length_ri A))"
  from ok t k obtain xs where xs: "get_buf h (payload A) = Some (Ind32 xs)" "?n \<le> length xs"
    by (auto simp: ind_ok_def split: payload.splits ptr.splits option.splits buffer.splits)
  from elems_ARR32 [OF t xs(1)] e xs(2) have "as = map scast (take ?n xs)" by simp
  then show ?thesis using xs k by (simp add: at32_def at_list_def)
qed

lemma returns_finish32:
  assumes "length rows = nat (sint n)"
  shows "returns (finish_arr32 h n rows mn mx) n (map scast rows)"
  using finish_arr32_elems [OF assms] by (simp add: returns_def)

lemma returns_finish64:
  assumes "length rows = nat (sint n)" "0 \<le> sint n" "\<forall>x \<in> set rows. 0 \<le>s x \<and> x \<le>s mx"
  shows "returns (finish_arr64 h n rows mn mx) n rows"
  using finish_arr64_elems [OF assms] by (simp add: returns_def)

lemma returns_slice:
  assumes "type_ri R = RI_SLICE" "payload R = Slice start step"
    "js = map (\<lambda>m. start + of_nat m * step) [0..<nat (sint (length_ri R))]"
  shows "returns (Some (alloc_hdr h R)) (length_ri R) js"
proof -
  obtain p h' where a: "alloc_hdr h R = (Ptr p, h')" by (simp add: alloc_hdr_def)
  then have "get_hdr h' (Ptr p) = Some R" using get_hdr_alloc [of h R] by simp
  moreover have "elems h' R = Some js" using elems_SLICE [OF assms(1,2)] assms(3) by simp
  ultimately show ?thesis using a by (auto simp: returns_def)
qed

lemma elems_length: "elems h r = Some js \<Longrightarrow> length js = nat (sint (length_ri r))"
  by (cases "type_ri r")
    (auto simp: elems_def ITER_ALL_def Let_def dest: iter_ind_length split: payload.splits)

lemma read_wide:
  assumes t: "type_ri A \<noteq> RI_SLICE" and ok: "ind_ok h A" and e: "elems h A = Some as"
    and k: "0 \<le> k" "k < sint (length_ri A)"
  shows "(if type_ri A = RI_ARR32 then at32w h (payload A) k else at64 h (payload A) k)
           = Some (as ! nat k)"
proof (cases "type_ri A")
  case RI_ARR32
  from read_ARR32 [OF this ok e k] show ?thesis using RI_ARR32 by (auto simp: at32w_def)
next
  case RI_ARR64
  from read_ARR64 [OF this ok e k] show ?thesis using RI_ARR64 by simp
next
  case RI_SLICE
  then show ?thesis using t by simp
qed

lemma valid_ind_ok: "valid_ri h A \<Longrightarrow> type_ri A \<noteq> RI_SLICE \<Longrightarrow> ind_ok h A"
  by (cases "type_ri A") (simp_all add: valid_ri_def)

lemma valid_elems:
  assumes "valid_ri h r" "elems h r = Some js"
  shows "\<forall>j \<in> set js. 0 \<le>s j \<and> min_ri r \<le>s j \<and> j \<le>s max_ri r"
    and "js \<noteq> [] \<Longrightarrow> min_ri r \<in> set js \<and> max_ri r \<in> set js"
  using assms by (simp_all add: valid_ri_def)

lemma nth_mem_nat:
  fixes b :: int64_t
  assumes "0 \<le> sint b" "sint b < sint L" "length as = nat (sint L)"
  shows "as ! nat (sint b) \<in> set as"
  using assms by (intro nth_mem) simp

lemma sint_nonzero: "(x :: int64_t) \<noteq> 0 \<Longrightarrow> sint x \<noteq> 0"
  by (simp add: signed_eq_0_iff)

lemma merge_slice_returns:
  assumes tB: "type_ri B = RI_SLICE"
    and vA: "valid_ri h A" and vB: "valid_ri h B"
    and eA: "elems h A = Some as" and eB: "elems h B = Some bs"
    and pos: "\<forall>b \<in> set bs. b <s length_ri A"
    and n0: "length_ri B \<noteq> 0"
  shows "returns (merge_slice h (Some A) B) (length_ri B) (map (\<lambda>k. as ! nat (sint k)) bs)"
proof -
  let ?n = "nat (sint (length_ri B))"
  let ?L = "sint (length_ri A)"
  obtain sb tb where pB: "payload B = Slice sb tb"
    using vB tB by (auto simp: valid_ri_def split: payload.splits)
  have bs: "bs = map (\<lambda>m. sb + of_nat m * tb) [0..<?n]"
    using elems_SLICE [OF tB pB, of h] eB by simp
  have n: "0 < ?n" using vB sint_nonzero [OF n0] by (simp add: valid_ri_def)
  have lenA: "length as = nat ?L" by (rule elems_length [OF eA])
  have rng: "0 \<le> sint b \<and> sint b < ?L" if "b \<in> set bs" for b
    using valid_elems(1) [OF vB eB] pos that by (simp add: word_sle_eq word_sless_alt)
  have idx: "nat (sint b) < length as" if "b \<in> set bs" for b
    using rng [OF that] lenA by simp
  have sb_in: "sb \<in> set bs" using n bs by (auto simp: image_iff intro!: bexI [where x = 0])
  show ?thesis
  proof (cases "type_ri A = RI_SLICE")
    case True
    obtain sa ta where pA: "payload A = Slice sa ta"
      using vA True by (auto simp: valid_ri_def split: payload.splits)
    have as: "as = map (\<lambda>m. sa + of_nat m * ta) [0..<nat ?L]"
      using elems_SLICE [OF True pA, of h] eA by simp
    let ?R = "\<lparr>type_ri = RI_SLICE, length_ri = length_ri B,
        min_ri = (if 0 \<le>s ta * tb then sa + ta * sb else sa + ta * sb + ta * tb * (length_ri B - 1)),
        max_ri = (if 0 \<le>s ta * tb then sa + ta * sb + ta * tb * (length_ri B - 1) else sa + ta * sb),
        payload = Slice (sa + ta * sb) (ta * tb)\<rparr>"
    have ms: "merge_slice h (Some A) B = Some (alloc_hdr h ?R)"
      using True pA pB by (simp add: merge_slice_def Let_def)
    have "as ! nat (sint b) = sa + b * ta" if "b \<in> set bs" for b
    proof -
      have "as ! nat (sint b) = sa + of_nat (nat (sint b)) * ta"
        using idx [OF that] lenA unfolding as by simp
      then show ?thesis using rng [OF that] by (simp add: of_nat_nat_sint)
    qed
    then have "map (\<lambda>k. as ! nat (sint k)) bs = map (\<lambda>b. sa + b * ta) bs" by simp
    also have "\<dots> = map (\<lambda>m. (sa + ta * sb) + of_nat m * (ta * tb)) [0..<?n]"
      unfolding bs by (simp add: algebra_simps)
    finally have "map (\<lambda>k. as ! nat (sint k)) bs =
        map (\<lambda>m. (sa + ta * sb) + of_nat m * (ta * tb)) [0..<nat (sint (length_ri ?R))]" by simp
    from returns_slice [OF _ _ this, of h] show ?thesis unfolding ms by simp
  next
    case False
    have ok: "ind_ok h A" by (rule valid_ind_ok [OF vA False])
    show ?thesis
    proof (cases "tb = 0")
      case True
      let ?s = "as ! nat (sint sb)"
      have "(if type_ri A = RI_ARR32 then at32w h (payload A) (sint sb)
             else at64 h (payload A) (sint sb)) = Some ?s"
        using read_wide [OF False ok eA] rng [OF sb_in] by simp
      then have ms: "merge_slice h (Some A) B = Some (alloc_hdr h
          \<lparr>type_ri = RI_SLICE, length_ri = length_ri B, min_ri = ?s, max_ri = ?s,
           payload = Slice ?s 0\<rparr>)"
        using False True pB by (simp add: merge_slice_def Let_def)
      have "map (\<lambda>k. as ! nat (sint k)) bs = map (\<lambda>m. ?s + of_nat m * 0) [0..<?n]"
        unfolding bs using True by (simp add: o_def)
      from returns_slice [OF _ _ , of "\<lparr>type_ri = RI_SLICE, length_ri = length_ri B, min_ri = ?s,
          max_ri = ?s, payload = Slice ?s 0\<rparr>" ?s 0 _ h] this
      show ?thesis unfolding ms by simp
    next
      case tb: False
      show ?thesis
      proof (cases "type_ri A = RI_ARR32")
        case True
        let ?f = "\<lambda>b. the (at32 h (payload A) (sint b))"
        have rd: "at32 h (payload A) (sint b) = Some (?f b) \<and> scast (?f b) = as ! nat (sint b)"
          if "b \<in> set bs" for b
          using read_ARR32 [OF True ok eA, of "sint b"] rng [OF that] by auto
        have "\<forall>m < ?n. at32 h (payload A) (sint (sb + of_nat m * tb)) = Some (?f (sb + of_nat m * tb))"
          using rd unfolding bs by simp
        from gather_slice_eq [OF this]
        have g: "gather_slice (at32 h (payload A)) ?n sb tb ([], ucast INT32_MAX, 0) =
            Some (map ?f bs, fold (\<lambda>x m. if x <s m then x else m) (map ?f bs) (ucast INT32_MAX),
                  fold (\<lambda>x m. if m <s x then x else m) (map ?f bs) 0)"
          unfolding bs by (simp add: fold_gather_step o_def)
        have ms: "merge_slice h (Some A) B = finish_arr32 h (length_ri B) (map ?f bs)
            (fold (\<lambda>x m. if x <s m then x else m) (map ?f bs) (ucast INT32_MAX))
            (fold (\<lambda>x m. if m <s x then x else m) (map ?f bs) 0)"
          using True tb pB g by (simp add: merge_slice_def Let_def)
        have "length (map ?f bs) = ?n" using elems_length [OF eB] by simp
        from returns_finish32 [OF this, of h]
        have "returns (merge_slice h (Some A) B) (length_ri B) (map scast (map ?f bs))"
          unfolding ms .
        moreover have "map scast (map ?f bs) = map (\<lambda>k. as ! nat (sint k)) bs"
          using rd by simp
        ultimately show ?thesis by (simp only:)
      next
        case A32: False
        then have t64: "type_ri A = RI_ARR64" using False by (cases "type_ri A") simp_all
        let ?f = "\<lambda>b. as ! nat (sint b)"
        have rd: "at64 h (payload A) (sint b) = Some (?f b)" if "b \<in> set bs" for b
          using read_ARR64 [OF t64 ok eA, of "sint b"] rng [OF that] by auto
        have "\<forall>m < ?n. at64 h (payload A) (sint (sb + of_nat m * tb)) = Some (?f (sb + of_nat m * tb))"
          using rd unfolding bs by simp
        from gather_slice_eq [OF this]
        have g: "gather_slice (at64 h (payload A)) ?n sb tb ([], INT64_MAX, 0) =
            Some (map ?f bs, fold (\<lambda>x m. if x <s m then x else m) (map ?f bs) INT64_MAX,
                  fold (\<lambda>x m. if m <s x then x else m) (map ?f bs) 0)"
          unfolding bs by (simp add: fold_gather_step o_def)
        have ms: "merge_slice h (Some A) B = finish_arr64 h (length_ri B) (map ?f bs)
            (fold (\<lambda>x m. if x <s m then x else m) (map ?f bs) INT64_MAX)
            (fold (\<lambda>x m. if m <s x then x else m) (map ?f bs) 0)"
          using False A32 tb pB g by (simp add: merge_slice_def Let_def)
        have l: "length (map ?f bs) = ?n" using elems_length [OF eB] by simp
        have n0': "0 \<le> sint (length_ri B)" using vB by (simp add: valid_ri_def)
        have "\<forall>x \<in> set (map ?f bs). 0 \<le>s x \<and>
            x \<le>s fold (\<lambda>x m. if m <s x then x else m) (map ?f bs) 0"
        proof
          fix x assume x: "x \<in> set (map ?f bs)"
          then obtain b where "b \<in> set bs" "x = as ! nat (sint b)" by auto
          then have "x \<in> set as" using idx by simp
          then have "0 \<le>s x" using valid_elems(1) [OF vA eA] by simp
          then show "0 \<le>s x \<and> x \<le>s fold (\<lambda>x m. if m <s x then x else m) (map ?f bs) 0"
            using fold_smax_bound [OF x] by simp
        qed
        from returns_finish64 [OF l n0' this, of h] show ?thesis unfolding ms .
      qed
    qed
  qed
qed

lemma merge_arr_returns:
  assumes tB: "type_ri B \<noteq> RI_SLICE"
    and vA: "valid_ri h A" and vB: "valid_ri h B"
    and eA: "elems h A = Some as" and eB: "elems h B = Some bs"
    and pos: "\<forall>b \<in> set bs. b <s length_ri A"
    and n0: "length_ri B \<noteq> 0"
  shows "returns (merge_arr h (Some A) B) (length_ri B) (map (\<lambda>k. as ! nat (sint k)) bs)"
proof -
  let ?n = "nat (sint (length_ri B))"
  let ?L = "sint (length_ri A)"
  let ?rows_bc = "if type_ri B = RI_ARR32 then at32w h (payload B) else at64 h (payload B)"
  let ?g = "\<lambda>k. as ! nat (sint k)"
  have n0': "0 \<le> sint (length_ri B)" using vB by (simp add: valid_ri_def)
  have n: "0 < ?n" using n0' sint_nonzero [OF n0] by simp
  have lenA: "length as = nat ?L" by (rule elems_length [OF eA])
  have lenB: "length bs = ?n" by (rule elems_length [OF eB])
  have ne: "bs \<noteq> []" using lenB n by auto
  have rng: "0 \<le> sint b \<and> sint b < ?L" if "b \<in> set bs" for b
    using valid_elems(1) [OF vB eB] pos that by (simp add: word_sle_eq word_sless_alt)
  have idx: "nat (sint b) < length as" if "b \<in> set bs" for b
    using rng [OF that] lenA by simp
  have "ITER_ALL h B = iter_ind ?rows_bc ?n 0"
    using tB by (cases "type_ri B") (simp_all add: ITER_ALL_def)
  then obtain ps where ps: "iter_ind ?rows_bc ?n 0 = Some ps" "map snd ps = bs"
    using eB by (auto simp: elems_def)
  have nonneg: "0 \<le>s x" if "x \<in> set (map ?g bs)" for x
  proof -
    from that obtain b where "b \<in> set bs" "x = as ! nat (sint b)" by auto
    then have "x \<in> set as" using idx by simp
    then show ?thesis using valid_elems(1) [OF vA eA] by simp
  qed
  have l: "length (map ?g bs) = ?n" using lenB by simp
  show ?thesis
  proof (cases "type_ri A = RI_SLICE")
    case True
    obtain sa ta where pA: "payload A = Slice sa ta"
      using vA True by (auto simp: valid_ri_def split: payload.splits)
    have as: "as = map (\<lambda>m. sa + of_nat m * ta) [0..<nat ?L]"
      using elems_SLICE [OF True pA, of h] eA by simp
    have Lpos: "0 < ?L" using rng ne by (cases bs) force+
    have sa0: "0 \<le> sint sa" and ea0: "0 \<le> sint sa + sint ta * (?L - 1)"
      and ea1: "sint sa + sint ta * (?L - 1) < 2 ^ 63"
      using vA True pA Lpos by (simp_all add: valid_ri_def)
    have row: "as ! nat (sint b) = sa + b * ta" if "b \<in> set bs" for b
    proof -
      have "as ! nat (sint b) = sa + of_nat (nat (sint b)) * ta"
        using idx [OF that] lenA unfolding as by simp
      then show ?thesis using rng [OF that] by (simp add: of_nat_nat_sint)
    qed
    have val: "sint (sa + b * ta) = sint sa + sint ta * sint b" if "b \<in> set bs" for b
    proof -
      have "sint (sa + of_nat (nat (sint b)) * ta) = sint sa + sint ta * int (nat (sint b))"
        using rng [OF that] by (intro slice_row [OF sa0 ea0 ea1]) simp
      then show ?thesis using rng [OF that] by (simp add: of_nat_nat_sint)
    qed
    let ?mn = "sa + ta * (if 0 \<le>s ta then min_ri B else max_ri B)"
    let ?mx = "sa + ta * (if 0 \<le>s ta then max_ri B else min_ri B)"
    let ?M = "if 0 \<le>s ta then max_ri B else min_ri B"
    have rows: "map (\<lambda>b. sa + b * ta) (map snd ps) = map ?g bs"
      using row ps(2) by simp
    have ma: "merge_arr h (Some A) B = finish_arr64 h (length_ri B) (map ?g bs) ?mn ?mx"
      using True pA affine_loop_eq [OF ps(1), of sa ta "[]"] rows
      by (simp add: merge_arr_def Let_def)
    have Min: "?M \<in> set bs" using valid_elems(2) [OF vB eB ne] by simp
    have "?mx = sa + ?M * ta" by (simp add: mult.commute)
    then have sm: "sint ?mx = sint sa + sint ta * sint ?M" using val [OF Min] by (simp only:)
    have "\<forall>x \<in> set (map ?g bs). 0 \<le>s x \<and> x \<le>s ?mx"
    proof
      fix x assume x: "x \<in> set (map ?g bs)"
      then obtain b where b: "b \<in> set bs" "x = sa + b * ta" using row by auto
      have "sint ta * sint b \<le> sint ta * sint ?M"
      proof (cases "0 \<le>s ta")
        case True
        then have "sint b \<le> sint (max_ri B)" "0 \<le> sint ta"
          using valid_elems(1) [OF vB eB] b(1) by (simp_all add: word_sle_eq)
        then show ?thesis using True by (simp add: mult_left_mono)
      next
        case False
        then have "sint (min_ri B) \<le> sint b" "sint ta \<le> 0"
          using valid_elems(1) [OF vB eB] b(1) by (simp_all add: word_sle_eq)
        then show ?thesis using False by (simp add: mult_left_mono_neg)
      qed
      moreover have "sint x = sint sa + sint ta * sint b" by (simp only: b(2) val [OF b(1)])
      ultimately have "sint x \<le> sint ?mx" using sm by linarith
      then have "x \<le>s ?mx" by (simp only: word_sle_eq)
      then show "0 \<le>s x \<and> x \<le>s ?mx" using nonneg [OF x] by simp
    qed
    from returns_finish64 [OF l n0' this, of h] show ?thesis unfolding ma .
  next
    case False
    have ok: "ind_ok h A" by (rule valid_ind_ok [OF vA False])
    show ?thesis
    proof (cases "type_ri A = RI_ARR32 \<and> type_ri B = RI_ARR32")
      case True
      let ?f = "\<lambda>b. the (at32 h (payload A) (sint b))"
      have rd: "at32 h (payload A) (sint b) = Some (?f b) \<and> scast (?f b) = as ! nat (sint b)"
        if "b \<in> set bs" for b
        using read_ARR32 [OF _ ok eA, of "sint b"] True rng [OF that] by auto
      then have "\<forall>b \<in> set (map snd ps). at32 h (payload A) (sint b) = Some (?f b)"
        using ps(2) by simp
      from gather_ind_eq [OF ps(1) this]
      have g: "gather_ind (at32 h (payload A)) ?rows_bc ?n 0 ([], ucast INT32_MAX, 0) =
          Some (map ?f bs, fold (\<lambda>x m. if x <s m then x else m) (map ?f bs) (ucast INT32_MAX),
                fold (\<lambda>x m. if m <s x then x else m) (map ?f bs) 0)"
        using ps(2) by (simp add: fold_gather_step)
      have ma: "merge_arr h (Some A) B = finish_arr32 h (length_ri B) (map ?f bs)
          (fold (\<lambda>x m. if x <s m then x else m) (map ?f bs) (ucast INT32_MAX))
          (fold (\<lambda>x m. if m <s x then x else m) (map ?f bs) 0)"
        using True g by (simp add: merge_arr_def Let_def)
      have "length (map ?f bs) = ?n" using lenB by simp
      from returns_finish32 [OF this, of h]
      have "returns (merge_arr h (Some A) B) (length_ri B) (map scast (map ?f bs))"
        unfolding ma .
      moreover have "map scast (map ?f bs) = map ?g bs" using rd by simp
      ultimately show ?thesis by (simp only:)
    next
      case F2: False
      let ?rows_ab = "if type_ri A = RI_ARR32 then at32w h (payload A) else at64 h (payload A)"
      have "?rows_ab (sint b) = Some (?g b)" if "b \<in> set bs" for b
        using read_wide [OF False ok eA, of "sint b"] rng [OF that]
        by (cases "type_ri A = RI_ARR32") simp_all
      then have "\<forall>b \<in> set (map snd ps). ?rows_ab (sint b) = Some (?g b)"
        using ps(2) by simp
      from gather_ind_eq [OF ps(1) this]
      have g: "gather_ind ?rows_ab ?rows_bc ?n 0 ([], INT64_MAX, 0) =
          Some (map ?g bs, fold (\<lambda>x m. if x <s m then x else m) (map ?g bs) INT64_MAX,
                fold (\<lambda>x m. if m <s x then x else m) (map ?g bs) 0)"
        using ps(2) by (simp add: fold_gather_step)
      have ma: "merge_arr h (Some A) B = finish_arr64 h (length_ri B) (map ?g bs)
          (fold (\<lambda>x m. if x <s m then x else m) (map ?g bs) INT64_MAX)
          (fold (\<lambda>x m. if m <s x then x else m) (map ?g bs) 0)"
        using False F2 g by (auto simp add: merge_arr_def Let_def)
      have "\<forall>x \<in> set (map ?g bs). 0 \<le>s x \<and>
          x \<le>s fold (\<lambda>x m. if m <s x then x else m) (map ?g bs) 0"
        using nonneg fold_smax_bound by blast
      from returns_finish64 [OF l n0' this, of h] show ?thesis unfolding ma .
    qed
  qed
qed

lemma merge_returns:
  assumes A: "get_hdr h ri_ab = Some A" and B: "get_hdr h ri_bc = Some B"
    and pre: "merge_pre h A B"
    and eA: "elems h A = Some as" and eB: "elems h B = Some bs"
  shows "returns (rowindex_merge h ri_ab ri_bc) (length_ri B) (map (\<lambda>k. as ! nat (sint k)) bs)"
proof -
  have vA: "valid_ri h A" and vB: "valid_ri h B" using pre by (simp_all add: merge_pre_def)
  have pos: "\<forall>b \<in> set bs. b <s length_ri A" using pre eB by (simp add: merge_pre_def)
  have lenB: "length bs = nat (sint (length_ri B))" by (rule elems_length [OF eB])
  have nn: "ri_ab \<noteq> NULL" "ri_bc \<noteq> NULL" using A B by auto
  show ?thesis
  proof (cases "length_ri B = 0")
    case True
    let ?R = "\<lparr>type_ri = RI_SLICE, length_ri = length_ri B, min_ri = 0, max_ri = 0,
        payload = Slice 0 1\<rparr>"
    have m: "rowindex_merge h ri_ab ri_bc = Some (alloc_hdr h ?R)"
      using nn A B True by (simp add: rowindex_merge_def)
    have "bs = []" using lenB True by simp
    then have "map (\<lambda>k. as ! nat (sint k)) bs =
        map (\<lambda>m. 0 + of_nat m * 1) [0..<nat (sint (length_ri ?R))]" using True by simp
    from returns_slice [OF _ _ this, of h] show ?thesis unfolding m by simp
  next
    case False
    show ?thesis
    proof (cases "type_ri B = RI_SLICE")
      case True
      then have "rowindex_merge h ri_ab ri_bc = merge_slice h (Some A) B"
        using nn A B False by (simp add: rowindex_merge_def)
      then show ?thesis using merge_slice_returns [OF True vA vB eA eB pos False] by simp
    next
      case F: False
      then have "rowindex_merge h ri_ab ri_bc = merge_arr h (Some A) B"
        using nn A B False by (cases "type_ri B") (simp_all add: rowindex_merge_def)
      then show ?thesis using merge_arr_returns [OF F vA vB eA eB pos False] by simp
    qed
  qed
qed

lemma merge_defined:
  assumes "get_hdr h ri_ab = Some A" "get_hdr h ri_bc = Some B" "merge_pre h A B"
  shows "\<exists>q h'. rowindex_merge h ri_ab ri_bc = Some (q, h')"
proof -
  obtain as where eA: "elems h A = Some as"
    using assms(3) by (auto simp: merge_pre_def valid_ri_def split: option.splits)
  obtain bs where eB: "elems h B = Some bs"
    using assms(3) by (auto simp: merge_pre_def valid_ri_def split: option.splits)
  from merge_returns [OF assms eA eB] show ?thesis by (auto simp: returns_def)
qed

text \<open>
  C1. For headers A (A\<open>\<rightarrow>\<close>B) and B (B\<open>\<rightarrow>\<close>C) of any of the three variants that
  satisfy the precondition of merge (both valid, every row of B a position of A), the
  merge returns a new header \<open>R\<close> with \<open>length R = length B = n\<close>; iterating \<open>R\<close>
  produces \<open>n\<close> rows, and the \<open>i\<close>-th of them is the row that A produces at the
  position given by the \<open>i\<close>-th row of B.
\<close>

theorem merge_semantics:
  assumes A: "get_hdr h ri_ab = Some A" and B: "get_hdr h ri_bc = Some B"
    and pre: "merge_pre h A B"
  shows "\<exists>p h' R as bs. rowindex_merge h ri_ab ri_bc = Some (Ptr p, h') \<and>
           get_hdr h' (Ptr p) = Some R \<and> length_ri R = length_ri B \<and>
           elems h A = Some as \<and> elems h B = Some bs \<and>
           length bs = nat (sint (length_ri B)) \<and>
           elems h' R = Some (map (\<lambda>k. as ! nat (sint k)) bs)"
proof -
  obtain as where eA: "elems h A = Some as"
    using pre by (auto simp: merge_pre_def valid_ri_def split: option.splits)
  obtain bs where eB: "elems h B = Some bs"
    using pre by (auto simp: merge_pre_def valid_ri_def split: option.splits)
  have lenB: "length bs = nat (sint (length_ri B))" by (rule elems_length [OF eB])
  from merge_returns [OF A B pre eA eB] show ?thesis
    using eA eB lenB unfolding returns_def by blast
qed

theorem merge_semantics_witness:
  "\<exists>p h' R. rowindex_merge heap_scn6 (Ptr 0) (Ptr 1) = Some (Ptr p, h') \<and>
      get_hdr h' (Ptr p) = Some R \<and> length_ri R = 3 \<and> elems h' R = Some [100, 120, 130]"
proof -
  let ?A = "\<lparr>type_ri = RI_SLICE, length_ri = 4, min_ri = 100, max_ri = 130,
             payload = Slice 100 10\<rparr>"
  let ?B = "\<lparr>type_ri = RI_ARR32, length_ri = 3, min_ri = 0, max_ri = 3,
             payload = Ind (Ptr 0)\<rparr>"
  have A: "get_hdr heap_scn6 (Ptr 0) = Some ?A" by code_simp
  have B: "get_hdr heap_scn6 (Ptr 1) = Some ?B" by code_simp
  have pre: "merge_pre heap_scn6 ?A ?B" by code_simp
  have eA: "elems heap_scn6 ?A = Some [100, 110, 120, 130]" by code_simp
  have eB: "elems heap_scn6 ?B = Some [0, 2, 3]" by code_simp
  from merge_semantics [OF A B pre] eA eB show ?thesis by auto
qed

text \<open>
  C9. \<open>rowindex_merge\<close> returns for every pair of headers that satisfies its
  precondition. Whenever it returns, every header and every array of the heap before
  the call is unchanged, both arguments among them, and, unless \<open>ri_bc\<close> is \<open>NULL\<close>,
  the result is a header at an address that was not allocated before the call,
  different from both arguments.
\<close>

theorem merge_frame:
  "(get_hdr h ri_ab = Some A \<and> get_hdr h ri_bc = Some B \<and> merge_pre h A B \<longrightarrow>
      (\<exists>q h'. rowindex_merge h ri_ab ri_bc = Some (q, h'))) \<and>
   (\<forall>q h'. rowindex_merge h ri_ab ri_bc = Some (q, h') \<longrightarrow>
      extends h h' \<and>
      (\<forall>p r. get_hdr h p = Some r \<longrightarrow> get_hdr h' p = Some r) \<and>
      (\<forall>pl b. get_buf h pl = Some b \<longrightarrow> get_buf h' pl = Some b) \<and>
      (ri_bc \<noteq> NULL \<longrightarrow>
         q = Ptr (length (hdrs h)) \<and> q \<noteq> ri_ab \<and> q \<noteq> ri_bc \<and>
         get_hdr h q = None \<and> get_hdr h' q \<noteq> None))"
proof (intro conjI allI impI)
  assume "get_hdr h ri_ab = Some A \<and> get_hdr h ri_bc = Some B \<and> merge_pre h A B"
  then show "\<exists>q h'. rowindex_merge h ri_ab ri_bc = Some (q, h')"
    using merge_defined by blast
next
  fix q h' assume m: "rowindex_merge h ri_ab ri_bc = Some (q, h')"
  show e: "extends h h'"
    using m unfolding rowindex_merge_def
    by (auto split: if_splits option.splits RowIndexType.splits
        dest: merge_slice_frame merge_arr_frame alloc_hdr_frame2)
  show "get_hdr h' p = Some r" if "get_hdr h p = Some r" for p r
    using e that by (rule extends_get_hdr)
  show "get_buf h' pl = Some b" if "get_buf h pl = Some b" for pl b
    using e that by (rule extends_get_buf)
  assume nn: "ri_bc \<noteq> NULL"
  have f: "q = Ptr (length (hdrs h)) \<and> length (hdrs h') = Suc (length (hdrs h))"
    using m nn unfolding rowindex_merge_def
    by (auto split: if_splits option.splits RowIndexType.splits
        dest: merge_slice_frame merge_arr_frame alloc_hdr_frame2)
  then show "q = Ptr (length (hdrs h))" by simp
  show "q \<noteq> ri_ab" "q \<noteq> ri_bc"
    using m nn f unfolding rowindex_merge_def
    by (auto simp: get_hdr_def split: if_splits option.splits)
  show "get_hdr h q = None" "get_hdr h' q \<noteq> None" using f by (simp_all add: get_hdr_def)
qed

theorem merge_frame_witness:
  "\<exists>h'. rowindex_merge heap_scn6 (Ptr 0) (Ptr 1) = Some (Ptr 2, h') \<and>
      get_hdr h' (Ptr 0) = get_hdr heap_scn6 (Ptr 0) \<and>
      get_hdr h' (Ptr 1) = get_hdr heap_scn6 (Ptr 1) \<and>
      get_buf h' (Ind (Ptr 0)) = Some (Ind32 [0, 2, 3]) \<and>
      get_hdr heap_scn6 (Ptr 2) = None \<and> get_hdr h' (Ptr 2) \<noteq> None"
proof -
  let ?A = "\<lparr>type_ri = RI_SLICE, length_ri = 4, min_ri = 100, max_ri = 130,
             payload = Slice 100 10\<rparr>"
  let ?B = "\<lparr>type_ri = RI_ARR32, length_ri = 3, min_ri = 0, max_ri = 3,
             payload = Ind (Ptr 0)\<rparr>"
  have A: "get_hdr heap_scn6 (Ptr 0) = Some ?A" by code_simp
  have B: "get_hdr heap_scn6 (Ptr 1) = Some ?B" by code_simp
  have pre: "merge_pre heap_scn6 ?A ?B" by code_simp
  have b0: "get_buf heap_scn6 (Ind (Ptr 0)) = Some (Ind32 [0, 2, 3])" by code_simp
  have l: "length (hdrs heap_scn6) = 2" by code_simp
  note F = merge_frame [of heap_scn6 "Ptr 0" ?A "Ptr 1" ?B]
  from F A B pre obtain q h' where m: "rowindex_merge heap_scn6 (Ptr 0) (Ptr 1) = Some (q, h')"
    by blast
  from F m have
    f1: "\<forall>p r. get_hdr heap_scn6 p = Some r \<longrightarrow> get_hdr h' p = Some r" and
    f2: "\<forall>pl b. get_buf heap_scn6 pl = Some b \<longrightarrow> get_buf h' pl = Some b" and
    f3: "q = Ptr (length (hdrs heap_scn6)) \<and> get_hdr heap_scn6 q = None \<and> get_hdr h' q \<noteq> None"
    by blast+
  have q: "q = Ptr 2" using f3 l by simp
  have "get_hdr h' (Ptr 0) = get_hdr heap_scn6 (Ptr 0)" using f1 A by simp
  moreover have "get_hdr h' (Ptr 1) = get_hdr heap_scn6 (Ptr 1)" using f1 B by simp
  moreover have "get_buf h' (Ind (Ptr 0)) = Some (Ind32 [0, 2, 3])" using f2 b0 by blast
  ultimately show ?thesis using m f3 unfolding q by (intro exI [where x = h']) simp
qed

lemma chunk_off_Suc: "chunk_off sel n (Suc i) = chunk_off sel n i + length (chunk_rows sel n i)"
  by (simp add: chunk_off_def)

lemma chunk_off_mono: "i \<le> j \<Longrightarrow> chunk_off sel n i \<le> chunk_off sel n j"
  by (induction j) (auto simp: chunk_off_Suc le_Suc_eq)

lemma chunk_off_next: "i < j \<Longrightarrow> chunk_off sel n i + length (chunk_rows sel n i) \<le> chunk_off sel n j"
  using chunk_off_mono [of "Suc i" j sel n] by (simp add: chunk_off_Suc)

lemma chunk_rows_le: "length (chunk_rows sel n i) \<le> rows_per_chunk"
proof -
  have "length (chunk_rows sel n i) \<le> length [i * rows_per_chunk..<min (i * rows_per_chunk + rows_per_chunk) n]"
    unfolding chunk_rows_def selected_def by (rule length_filter_le)
  then show ?thesis by simp
qed

lemma upt_split: "i \<le> j \<Longrightarrow> j \<le> k \<Longrightarrow> [i..<j] @ [j..<k] = [i..<k]"
  using upt_add_eq_append [of i j "k - j"] by simp

lemma chunks_upt:
  assumes "k \<le> num_chunks n"
  shows "concat (map (\<lambda>i. [i * rows_per_chunk..<min (i * rows_per_chunk + rows_per_chunk) n]) [0..<k])
           = [0..<min (k * rows_per_chunk) n]"
  using assms
proof (induction k)
  case 0
  then show ?case by simp
next
  case (Suc k)
  have K: "0 < rows_per_chunk" by (simp add: rows_per_chunk_def)
  have "k < (n + rows_per_chunk - 1) div rows_per_chunk" using Suc.prems by (simp add: num_chunks_def)
  then have "Suc k \<le> (n + rows_per_chunk - 1) div rows_per_chunk" by simp
  then have "Suc k * rows_per_chunk \<le> n + rows_per_chunk - 1"
    using K by (simp only: less_eq_div_iff_mult_less_eq)
  then have lt: "k * rows_per_chunk \<le> n" by simp
  have "[0..<k * rows_per_chunk] @ [k * rows_per_chunk..<min (k * rows_per_chunk + rows_per_chunk) n]
      = [0..<min (k * rows_per_chunk + rows_per_chunk) n]"
    using lt by (intro upt_split) simp_all
  then have "[0..<min (k * rows_per_chunk) n] @ [k * rows_per_chunk..<min (k * rows_per_chunk + rows_per_chunk) n]
      = [0..<min (Suc k * rows_per_chunk) n]"
    using lt by (simp add: min_absorb1 add.commute)
  then show ?case using Suc by simp
qed

lemma num_chunks_cover: "n \<le> num_chunks n * rows_per_chunk"
proof -
  have K: "0 < rows_per_chunk" by (simp add: rows_per_chunk_def)
  have "n + rows_per_chunk - 1 < (Suc ((n + rows_per_chunk - 1) div rows_per_chunk)) * rows_per_chunk"
    using K by (metis dividend_less_div_times mult_Suc)
  then show ?thesis using K by (simp add: num_chunks_def)
qed

lemma all_chunk_rows:
  "concat (map (chunk_rows sel n) [0..<num_chunks n]) = filter sel [0..<n]"
proof -
  have "concat (map (chunk_rows sel n) [0..<num_chunks n]) =
      filter sel (concat (map (\<lambda>i. [i * rows_per_chunk..<min (i * rows_per_chunk + rows_per_chunk) n])
        [0..<num_chunks n]))"
    by (simp add: filter_concat chunk_rows_def [abs_def] selected_def o_def)
  also have "\<dots> = filter sel [0..<min (num_chunks n * rows_per_chunk) n]"
    by (simp only: chunks_upt [OF order_refl])
  also have "\<dots> = filter sel [0..<n]" using num_chunks_cover [of n] by (simp add: min_absorb2)
  finally show ?thesis .
qed

lemma chunk_off_total: "chunk_off sel n (num_chunks n) \<le> n"
proof -
  have "chunk_off sel n (num_chunks n) = length (filter sel [0..<n])"
    by (simp only: chunk_off_def all_chunk_rows)
  also have "\<dots> \<le> length [0..<n]" by (rule length_filter_le)
  finally show ?thesis by simp
qed

lemma chunk_end_le:
  assumes "c < num_chunks n"
  shows "chunk_off sel n c + length (chunk_rows sel n c) \<le> n"
  using chunk_off_next [OF assms, of sel n] chunk_off_total [of sel n] by linarith

lemma size_of_count:
  assumes "m \<le> rows_per_chunk"
  shows "size_of (of_nat m) = m"
proof -
  have m: "int m \<le> 65536" using assms by (simp add: rows_per_chunk_def)
  have "sint (word_of_int (int m) :: int32_t) = int m"
    using m by (simp only: sint_sbintrunc') (simp add: signed_take_bit_int_eq_self)
  then have "sint (scast (word_of_int (int m) :: int32_t) :: int64_t) = int m"
    by (simp only: sint_scast32)
  moreover have "sint (word_of_int (int m) :: int64_t) = int m"
    using m by (intro sint_of_int64) simp_all
  ultimately have "(scast (word_of_int (int m) :: int32_t) :: int64_t) = word_of_int (int m)"
    by (simp only: word_eq_iff_signed [where ?'a = int])
  moreover have "uint (word_of_int (int m) :: int64_t) = int m"
    using m by (simp only: uint_word_of_int) (simp add: take_bit_int_eq_self flip: take_bit_eq_mod)
  ultimately have "uint (scast (word_of_int (int m) :: int32_t) :: int64_t) = int m" by simp
  then have "unat (scast (word_of_int (int m) :: int32_t) :: int64_t) = m"
    by (simp only: unat_eq_nat_uint nat_int)
  then show ?thesis by (simp add: size_of_def)
qed

lemma count_zero:
  assumes "m \<le> rows_per_chunk" "(of_nat m :: int32_t) = 0"
  shows "m = 0"
  using size_of_count [OF assms(1)] assms(2) by (simp add: size_of_def)

lemma memcpy_out_nth:
  assumes "memcpy_out dst off src n = Some dst'" "k < length dst"
  shows "length dst' = length dst \<and>
         dst' ! k = (if off \<le> k \<and> k < off + n then src ! (k - off) else dst ! k)"
proof -
  from assms(1) have b: "off + n \<le> length dst" "n \<le> length src"
    and d: "dst' = take off dst @ take n src @ drop (off + n) dst"
    by (auto simp: memcpy_out_def split: if_splits)
  have "length dst' = length dst" using b d by simp
  moreover have "dst' ! k = (if off \<le> k \<and> k < off + n then src ! (k - off) else dst ! k)"
    using b assms(2) unfolding d by (auto simp: nth_append)
  ultimately show ?thesis by simp
qed

lemma flush_inv:
  assumes inv: "team_inv sel n s" and t: "t < length (threads s)"
    and idle: "pc (threads s ! t) = Idle"
  shows "\<exists>out'. flush (threads s ! t) (out s) = Some out' \<and> length out' = n \<and>
           (\<forall>c < turn s. in_place sel n (out s) c \<longrightarrow> in_place sel n out' c) \<and>
           (\<forall>c < turn s. holds sel n (threads s ! t) c \<and>
               out_offset (threads s ! t) = chunk_off sel n c \<longrightarrow> in_place sel n out' c)"
proof -
  let ?th = "threads s ! t"
  have len: "length (out s) = n" and tn: "turn s \<le> next_chunk s" "next_chunk s \<le> num_chunks n"
    using inv by (simp_all add: team_inv_def)
  have pend: "buf_length ?th = 0 \<or>
      (\<exists>c < turn s. holds sel n ?th c \<and> out_offset ?th = chunk_off sel n c)"
    using inv t idle unfolding team_inv_def by (auto split: phase.splits)
  show ?thesis
  proof (cases "buf_length ?th = 0")
    case True
    have "in_place sel n (out s) c" if "holds sel n ?th c" for c
    proof -
      have "length (chunk_rows sel n c) = 0"
        using that True chunk_rows_le [of sel n c] by (intro count_zero) (simp_all add: holds_def)
      then show ?thesis by (simp add: in_place_def)
    qed
    then show ?thesis using True len by (auto simp: flush_def)
  next
    case False
    then obtain c0 where c0: "c0 < turn s" "holds sel n ?th c0"
      "out_offset ?th = chunk_off sel n c0" using pend by auto
    let ?m = "length (chunk_rows sel n c0)"
    have sz: "size_of (buf_length ?th) = ?m"
      using c0(2) chunk_rows_le [of sel n c0] by (simp add: holds_def size_of_count)
    have bl: "length (buf ?th) = ?m" using c0(2) by (simp add: holds_def)
    have c0n: "c0 < num_chunks n" using c0(1) tn by simp
    have fit: "chunk_off sel n c0 + ?m \<le> length (out s)"
      using chunk_end_le [OF c0n, of sel] len by simp
    let ?out' = "take (chunk_off sel n c0) (out s) @ take ?m (buf ?th) @
        drop (chunk_off sel n c0 + ?m) (out s)"
    have m: "memcpy_out (out s) (chunk_off sel n c0) (buf ?th) ?m = Some ?out'"
      using fit bl by (simp add: memcpy_out_def)
    then have fl: "flush ?th (out s) = Some ?out'" using False c0(3) sz by (simp add: flush_def)
    have nth: "?out' ! j = (if chunk_off sel n c0 \<le> j \<and> j < chunk_off sel n c0 + ?m
        then buf ?th ! (j - chunk_off sel n c0) else out s ! j)" if "j < length (out s)" for j
      using memcpy_out_nth [OF m that] by simp
    have keep: "in_place sel n ?out' c" if c: "c < turn s" and ip: "in_place sel n (out s) c" for c
      unfolding in_place_def
    proof (intro allI impI)
      fix k assume k: "k < length (chunk_rows sel n c)"
      have cn: "c < num_chunks n" using c tn by simp
      have j: "chunk_off sel n c + k < length (out s)"
        using chunk_end_le [OF cn, of sel] k len by simp
      consider "c = c0" | "c < c0" | "c0 < c" by linarith
      then show "?out' ! (chunk_off sel n c + k) = of_nat (chunk_rows sel n c ! k)"
      proof cases
        case 1
        then show ?thesis using nth [OF j] k c0(2) by (simp add: holds_def)
      next
        case 2
        then have "chunk_off sel n c + k < chunk_off sel n c0"
          using chunk_off_next [OF 2, of sel n] k by simp
        then show ?thesis using nth [OF j] ip k by (simp add: in_place_def)
      next
        case 3
        then have "chunk_off sel n c0 + ?m \<le> chunk_off sel n c + k"
          using chunk_off_next [OF 3, of sel n] by simp
        then show ?thesis using nth [OF j] ip k by (simp add: in_place_def)
      qed
    qed
    have mine: "in_place sel n ?out' c"
      if c: "c < turn s" and hc: "holds sel n ?th c" and oc: "out_offset ?th = chunk_off sel n c" for c
      unfolding in_place_def
    proof (intro allI impI)
      fix k assume k: "k < length (chunk_rows sel n c)"
      have e: "chunk_off sel n c = chunk_off sel n c0" using oc c0(3) by simp
      have l: "length (chunk_rows sel n c) = ?m" using hc bl by (simp add: holds_def)
      have j: "chunk_off sel n c0 + k < length (out s)" using fit k l by simp
      show "?out' ! (chunk_off sel n c + k) = of_nat (chunk_rows sel n c ! k)"
        using nth [OF j] k l e hc by (simp add: holds_def)
    qed
    have "length ?out' = n" using fit bl len by simp
    then show ?thesis using fl keep mine by blast
  qed
qed

lemma team_invI:
  assumes "length (out s) = n" "turn s \<le> next_chunk s" "next_chunk s \<le> num_chunks n"
    "out_length s = chunk_off sel n (turn s)"
    "\<And>t i. t < length (threads s) \<Longrightarrow> pc (threads s ! t) = Filled i \<Longrightarrow>
        turn s \<le> i \<and> i < next_chunk s \<and> holds sel n (threads s ! t) i"
    "\<And>t. t < length (threads s) \<Longrightarrow> pc (threads s ! t) = Idle \<Longrightarrow>
        buf_length (threads s ! t) = 0 \<or>
        (\<exists>c < turn s. holds sel n (threads s ! t) c \<and> out_offset (threads s ! t) = chunk_off sel n c)"
    "\<And>t. t < length (threads s) \<Longrightarrow> pc (threads s ! t) = Done \<Longrightarrow> next_chunk s = num_chunks n"
    "\<And>c. c < turn s \<Longrightarrow> in_place sel n (out s) c \<or>
        (\<exists>t < length (threads s). pc (threads s ! t) = Idle \<and> holds sel n (threads s ! t) c \<and>
           out_offset (threads s ! t) = chunk_off sel n c)"
    "\<And>i. turn s \<le> i \<Longrightarrow> i < next_chunk s \<Longrightarrow>
        \<exists>t < length (threads s). pc (threads s ! t) = Filled i"
    "\<And>t u i. t < length (threads s) \<Longrightarrow> u < length (threads s) \<Longrightarrow>
        pc (threads s ! t) = Filled i \<Longrightarrow> pc (threads s ! u) = Filled i \<Longrightarrow> t = u"
  shows "team_inv sel n s"
  unfolding team_inv_def
proof (intro conjI allI impI)
  fix t assume "t < length (threads s)"
  then show "case pc (threads s ! t) of
      Idle \<Rightarrow> buf_length (threads s ! t) = 0 \<or>
        (\<exists>c < turn s. holds sel n (threads s ! t) c \<and> out_offset (threads s ! t) = chunk_off sel n c)
    | Filled i \<Rightarrow> turn s \<le> i \<and> i < next_chunk s \<and> holds sel n (threads s ! t) i
    | Done \<Rightarrow> next_chunk s = num_chunks n"
    using assms(5-7) [of t] by (cases "pc (threads s ! t)") simp_all
qed (use assms in blast)+

lemma team_invD:
  assumes "team_inv sel n s"
  shows "length (out s) = n" "turn s \<le> next_chunk s" "next_chunk s \<le> num_chunks n"
    "out_length s = chunk_off sel n (turn s)"
    "\<And>t i. t < length (threads s) \<Longrightarrow> pc (threads s ! t) = Filled i \<Longrightarrow>
        turn s \<le> i \<and> i < next_chunk s \<and> holds sel n (threads s ! t) i"
    "\<And>t. t < length (threads s) \<Longrightarrow> pc (threads s ! t) = Idle \<Longrightarrow>
        buf_length (threads s ! t) = 0 \<or>
        (\<exists>c < turn s. holds sel n (threads s ! t) c \<and> out_offset (threads s ! t) = chunk_off sel n c)"
    "\<And>t. t < length (threads s) \<Longrightarrow> pc (threads s ! t) = Done \<Longrightarrow> next_chunk s = num_chunks n"
    "\<And>c. c < turn s \<Longrightarrow> in_place sel n (out s) c \<or>
        (\<exists>t < length (threads s). pc (threads s ! t) = Idle \<and> holds sel n (threads s ! t) c \<and>
           out_offset (threads s ! t) = chunk_off sel n c)"
    "\<And>i. turn s \<le> i \<Longrightarrow> i < next_chunk s \<Longrightarrow>
        \<exists>t < length (threads s). pc (threads s ! t) = Filled i"
    "\<And>t u i. t < length (threads s) \<Longrightarrow> u < length (threads s) \<Longrightarrow>
        pc (threads s ! t) = Filled i \<Longrightarrow> pc (threads s ! u) = Filled i \<Longrightarrow> t = u"
proof -
  show "length (out s) = n" "turn s \<le> next_chunk s" "next_chunk s \<le> num_chunks n"
    "out_length s = chunk_off sel n (turn s)"
    using assms by (simp_all add: team_inv_def)
  have th: "\<forall>t < length (threads s). case pc (threads s ! t) of
      Idle \<Rightarrow> buf_length (threads s ! t) = 0 \<or>
        (\<exists>c < turn s. holds sel n (threads s ! t) c \<and> out_offset (threads s ! t) = chunk_off sel n c)
    | Filled i \<Rightarrow> turn s \<le> i \<and> i < next_chunk s \<and> holds sel n (threads s ! t) i
    | Done \<Rightarrow> next_chunk s = num_chunks n"
    using assms by (simp add: team_inv_def)
  show "\<And>t i. t < length (threads s) \<Longrightarrow> pc (threads s ! t) = Filled i \<Longrightarrow>
        turn s \<le> i \<and> i < next_chunk s \<and> holds sel n (threads s ! t) i"
    using th by force
  show "\<And>t. t < length (threads s) \<Longrightarrow> pc (threads s ! t) = Idle \<Longrightarrow>
        buf_length (threads s ! t) = 0 \<or>
        (\<exists>c < turn s. holds sel n (threads s ! t) c \<and> out_offset (threads s ! t) = chunk_off sel n c)"
    using th by force
  show "\<And>t. t < length (threads s) \<Longrightarrow> pc (threads s ! t) = Done \<Longrightarrow> next_chunk s = num_chunks n"
    using th by force
  show "\<And>c. c < turn s \<Longrightarrow> in_place sel n (out s) c \<or>
        (\<exists>t < length (threads s). pc (threads s ! t) = Idle \<and> holds sel n (threads s ! t) c \<and>
           out_offset (threads s ! t) = chunk_off sel n c)"
    using assms unfolding team_inv_def by blast
  show "\<And>i. turn s \<le> i \<Longrightarrow> i < next_chunk s \<Longrightarrow>
        \<exists>t < length (threads s). pc (threads s ! t) = Filled i"
    using assms unfolding team_inv_def by blast
  show "\<And>t u i. t < length (threads s) \<Longrightarrow> u < length (threads s) \<Longrightarrow>
        pc (threads s ! t) = Filled i \<Longrightarrow> pc (threads s ! u) = Filled i \<Longrightarrow> t = u"
    using assms unfolding team_inv_def by blast
qed

lemma step_commit:
  assumes inv: "team_inv sel n s" and t: "t < length (threads s)"
    and pc: "pc (threads s ! t) = Filled (turn s)"
  shows "\<exists>s'. thread_step filterfn n t s = Some s' \<and> team_inv sel n s' \<and>
           map pc (threads s') = (map pc (threads s))[t := Idle] \<and>
           next_chunk s' = next_chunk s \<and> turn s' = Suc (turn s)"
proof -
  let ?th = "threads s ! t"
  let ?th' = "?th\<lparr>out_offset := out_length s, pc := Idle\<rparr>"
  let ?s' = "s\<lparr>out_length := out_length s + size_of (buf_length ?th), turn := turn s + 1,
      threads := (threads s)[t := ?th']\<rparr>"
  note D = team_invD [OF inv]
  have st: "thread_step filterfn n t s = Some ?s'"
    using t pc by (simp add: thread_step_def Let_def)
  have me: "turn s < next_chunk s" "holds sel n ?th (turn s)" using D(5) [OF t pc] by simp_all
  have sz: "size_of (buf_length ?th) = length (chunk_rows sel n (turn s))"
    using me(2) chunk_rows_le [of sel n "turn s"] by (simp add: holds_def size_of_count)
  have nth: "threads ?s' ! u = (if u = t then ?th' else threads s ! u)"
    if "u < length (threads s)" for u
    using that by (simp add: nth_list_update)
  have "team_inv sel n ?s'"
  proof (rule team_invI)
    show "length (out ?s') = n" using D(1) by simp
    show "turn ?s' \<le> next_chunk ?s'" using me(1) by simp
    show "next_chunk ?s' \<le> num_chunks n" using D(3) by simp
    show "out_length ?s' = chunk_off sel n (turn ?s')"
      using D(4) sz by (simp add: chunk_off_Suc)
  next
    fix u i assume u: "u < length (threads ?s')" and f: "pc (threads ?s' ! u) = Filled i"
    then have ut: "u \<noteq> t" and ul: "u < length (threads s)" and f': "pc (threads s ! u) = Filled i"
      using nth [of u] by (auto split: if_splits)
    have "i \<noteq> turn s" using D(10) [OF ul t f'] pc ut by auto
    then show "turn ?s' \<le> i \<and> i < next_chunk ?s' \<and> holds sel n (threads ?s' ! u) i"
      using D(5) [OF ul f'] nth [OF ul] ut by simp
  next
    fix u assume u: "u < length (threads ?s')" and f: "pc (threads ?s' ! u) = Idle"
    then have ul: "u < length (threads s)" by simp
    show "buf_length (threads ?s' ! u) = 0 \<or>
        (\<exists>c < turn ?s'. holds sel n (threads ?s' ! u) c \<and>
           out_offset (threads ?s' ! u) = chunk_off sel n c)"
    proof (cases "u = t")
      case True
      have "holds sel n ?th' (turn s)" using me(2) by (simp add: holds_def)
      then show ?thesis using True nth [OF ul] D(4) by auto
    next
      case False
      then have "pc (threads s ! u) = Idle" using f nth [OF ul] by simp
      from D(6) [OF ul this] show ?thesis using False nth [OF ul] by (auto intro: less_SucI)
    qed
  next
    fix u assume u: "u < length (threads ?s')" and f: "pc (threads ?s' ! u) = Done"
    then have ul: "u < length (threads s)" and "pc (threads s ! u) = Done"
      using nth [of u] by (auto split: if_splits)
    then show "next_chunk ?s' = num_chunks n" using D(7) by simp
  next
    fix c assume c: "c < turn ?s'"
    show "in_place sel n (out ?s') c \<or>
        (\<exists>u < length (threads ?s'). pc (threads ?s' ! u) = Idle \<and> holds sel n (threads ?s' ! u) c \<and>
           out_offset (threads ?s' ! u) = chunk_off sel n c)"
    proof (cases "c = turn s")
      case True
      have "holds sel n ?th' (turn s)" using me(2) by (simp add: holds_def)
      then have "pc (threads ?s' ! t) = Idle \<and> holds sel n (threads ?s' ! t) c \<and>
           out_offset (threads ?s' ! t) = chunk_off sel n c"
        using True nth [OF t] D(4) by simp
      then show ?thesis using t by auto
    next
      case False
      then have "c < turn s" using c by simp
      from D(8) [OF this] show ?thesis
      proof
        assume "in_place sel n (out s) c"
        then show ?thesis by simp
      next
        assume "\<exists>u < length (threads s). pc (threads s ! u) = Idle \<and> holds sel n (threads s ! u) c \<and>
           out_offset (threads s ! u) = chunk_off sel n c"
        then obtain u where u: "u < length (threads s)" "pc (threads s ! u) = Idle"
          "holds sel n (threads s ! u) c" "out_offset (threads s ! u) = chunk_off sel n c" by blast
        then have "u \<noteq> t" using pc by auto
        then have "pc (threads ?s' ! u) = Idle \<and> holds sel n (threads ?s' ! u) c \<and>
           out_offset (threads ?s' ! u) = chunk_off sel n c" using u nth [OF u(1)] by simp
        then show ?thesis using u(1) by auto
      qed
    qed
  next
    fix i assume i: "turn ?s' \<le> i" "i < next_chunk ?s'"
    then have "turn s \<le> i" "i < next_chunk s" by simp_all
    from D(9) [OF this] obtain u where u: "u < length (threads s)" "pc (threads s ! u) = Filled i"
      by blast
    then have "u \<noteq> t" using pc i(1) by auto
    then have "pc (threads ?s' ! u) = Filled i" using u nth [OF u(1)] by simp
    then show "\<exists>u < length (threads ?s'). pc (threads ?s' ! u) = Filled i" using u(1) by auto
  next
    fix u v i assume a: "u < length (threads ?s')" "v < length (threads ?s')"
      "pc (threads ?s' ! u) = Filled i" "pc (threads ?s' ! v) = Filled i"
    then have "u < length (threads s)" "v < length (threads s)"
      "pc (threads s ! u) = Filled i" "pc (threads s ! v) = Filled i"
      using nth [of u] nth [of v] by (auto split: if_splits)
    then show "u = v" by (rule D(10))
  qed
  moreover have "map pc (threads ?s') = (map pc (threads s))[t := Idle]"
    by (simp add: map_update)
  ultimately show ?thesis using st by (intro exI [where x = ?s']) simp
qed

lemma step_start:
  assumes inv: "team_inv sel n s" and t: "t < length (threads s)"
    and pc: "pc (threads s ! t) = Idle" and more: "next_chunk s < num_chunks n"
    and con: "filter_contract filterfn sel n"
  shows "\<exists>s'. thread_step filterfn n t s = Some s' \<and> team_inv sel n s' \<and>
           map pc (threads s') = (map pc (threads s))[t := Filled (next_chunk s)] \<and>
           next_chunk s' = Suc (next_chunk s) \<and> turn s' = turn s"
proof -
  let ?th = "threads s ! t" and ?i = "next_chunk s"
  let ?rows = "chunk_rows sel n ?i"
  note D = team_invD [OF inv]
  from flush_inv [OF inv t pc] obtain out' where fl: "flush ?th (out s) = Some out'"
    and len: "length out' = n"
    and keep: "\<And>c. c < turn s \<Longrightarrow> in_place sel n (out s) c \<Longrightarrow> in_place sel n out' c"
    and mine: "\<And>c. c < turn s \<Longrightarrow> holds sel n ?th c \<Longrightarrow>
        out_offset ?th = chunk_off sel n c \<Longrightarrow> in_place sel n out' c"
    by blast
  let ?th' = "?th\<lparr>buf := map of_nat ?rows, buf_length := of_nat (length ?rows), pc := Filled ?i\<rparr>"
  let ?s' = "s\<lparr>out := out', next_chunk := ?i + 1, threads := (threads s)[t := ?th']\<rparr>"
  have call: "filterfn (?i * rows_per_chunk) (min (?i * rows_per_chunk + rows_per_chunk) n) =
      (map of_nat ?rows, of_nat (length ?rows))"
    using con more by (simp add: filter_contract_def chunk_rows_def)
  have st: "thread_step filterfn n t s = Some ?s'"
    using t pc more fl call chunk_rows_le [of sel n ?i]
    by (simp add: thread_step_def Let_def)
  have nth: "threads ?s' ! u = (if u = t then ?th' else threads s ! u)"
    if "u < length (threads s)" for u
    using that by (simp add: nth_list_update)
  have "team_inv sel n ?s'"
  proof (rule team_invI)
    show "length (out ?s') = n" using len by simp
    show "turn ?s' \<le> next_chunk ?s'" using D(2) by simp
    show "next_chunk ?s' \<le> num_chunks n" using more by simp
    show "out_length ?s' = chunk_off sel n (turn ?s')" using D(4) by simp
  next
    fix u i assume u: "u < length (threads ?s')" and f: "pc (threads ?s' ! u) = Filled i"
    then have ul: "u < length (threads s)" by simp
    show "turn ?s' \<le> i \<and> i < next_chunk ?s' \<and> holds sel n (threads ?s' ! u) i"
    proof (cases "u = t")
      case True
      then show ?thesis using f nth [OF ul] D(2) by (simp add: holds_def)
    next
      case False
      then have "pc (threads s ! u) = Filled i" using f nth [OF ul] by simp
      from D(5) [OF ul this] show ?thesis using False nth [OF ul] by simp
    qed
  next
    fix u assume u: "u < length (threads ?s')" and f: "pc (threads ?s' ! u) = Idle"
    then have ul: "u < length (threads s)" and ut: "u \<noteq> t" and "pc (threads s ! u) = Idle"
      using nth [of u] by (auto split: if_splits)
    from D(6) [OF ul this(3)]
    show "buf_length (threads ?s' ! u) = 0 \<or>
        (\<exists>c < turn ?s'. holds sel n (threads ?s' ! u) c \<and>
           out_offset (threads ?s' ! u) = chunk_off sel n c)"
      using ut nth [OF ul] by simp
  next
    fix u assume u: "u < length (threads ?s')" and f: "pc (threads ?s' ! u) = Done"
    then have ul: "u < length (threads s)" and "pc (threads s ! u) = Done"
      using nth [of u] by (auto split: if_splits)
    then show "next_chunk ?s' = num_chunks n" using D(7) more by fastforce
  next
    fix c assume c: "c < turn ?s'"
    then have c': "c < turn s" by simp
    from D(8) [OF c']
    show "in_place sel n (out ?s') c \<or>
        (\<exists>u < length (threads ?s'). pc (threads ?s' ! u) = Idle \<and> holds sel n (threads ?s' ! u) c \<and>
           out_offset (threads ?s' ! u) = chunk_off sel n c)"
    proof
      assume "in_place sel n (out s) c"
      then show ?thesis using keep [OF c'] by simp
    next
      assume "\<exists>u < length (threads s). pc (threads s ! u) = Idle \<and> holds sel n (threads s ! u) c \<and>
           out_offset (threads s ! u) = chunk_off sel n c"
      then obtain u where u: "u < length (threads s)" "pc (threads s ! u) = Idle"
        "holds sel n (threads s ! u) c" "out_offset (threads s ! u) = chunk_off sel n c" by blast
      show ?thesis
      proof (cases "u = t")
        case True
        then show ?thesis using mine [OF c'] u by simp
      next
        case False
        then have "pc (threads ?s' ! u) = Idle \<and> holds sel n (threads ?s' ! u) c \<and>
           out_offset (threads ?s' ! u) = chunk_off sel n c" using u nth [OF u(1)] by simp
        then show ?thesis using u(1) by auto
      qed
    qed
  next
    fix i assume i: "turn ?s' \<le> i" "i < next_chunk ?s'"
    show "\<exists>u < length (threads ?s'). pc (threads ?s' ! u) = Filled i"
    proof (cases "i = ?i")
      case True
      then have "pc (threads ?s' ! t) = Filled i" using nth [OF t] by simp
      then show ?thesis using t by auto
    next
      case False
      then have "turn s \<le> i" "i < next_chunk s" using i by simp_all
      from D(9) [OF this] obtain u where u: "u < length (threads s)" "pc (threads s ! u) = Filled i"
        by blast
      then have "u \<noteq> t" using pc by auto
      then have "pc (threads ?s' ! u) = Filled i" using u nth [OF u(1)] by simp
      then show ?thesis using u(1) by auto
    qed
  next
    fix u v i assume a: "u < length (threads ?s')" "v < length (threads ?s')"
      "pc (threads ?s' ! u) = Filled i" "pc (threads ?s' ! v) = Filled i"
    then have ul: "u < length (threads s)" and vl: "v < length (threads s)" by simp_all
    have old: "i < ?i" if "w < length (threads s)" "w \<noteq> t" "pc (threads ?s' ! w) = Filled i" for w
      using that D(5) [of w i] nth [of w] by simp
    show "u = v"
    proof (cases "u = t")
      case True
      then have "i = ?i" using a(3) nth [OF ul] by simp
      then show ?thesis using old [OF vl _ a(4)] True by auto
    next
      case False
      show ?thesis
      proof (cases "v = t")
        case True
        then have "i = ?i" using a(4) nth [OF vl] by simp
        then show ?thesis using old [OF ul False a(3)] by simp
      next
        case F: False
        then show ?thesis using D(10) [OF ul vl] a(3,4) False nth [OF ul] nth [OF vl] by simp
      qed
    qed
  qed
  moreover have "map pc (threads ?s') = (map pc (threads s))[t := Filled ?i]"
    by (simp add: map_update)
  ultimately show ?thesis using st by (intro exI [where x = ?s']) simp
qed

lemma step_finish:
  assumes inv: "team_inv sel n s" and t: "t < length (threads s)"
    and pc: "pc (threads s ! t) = Idle" and nomore: "\<not> next_chunk s < num_chunks n"
  shows "\<exists>s'. thread_step filterfn n t s = Some s' \<and> team_inv sel n s' \<and>
           map pc (threads s') = (map pc (threads s))[t := Done] \<and>
           next_chunk s' = next_chunk s \<and> turn s' = turn s"
proof -
  let ?th = "threads s ! t"
  note D = team_invD [OF inv]
  from flush_inv [OF inv t pc] obtain out' where fl: "flush ?th (out s) = Some out'"
    and len: "length out' = n"
    and keep: "\<And>c. c < turn s \<Longrightarrow> in_place sel n (out s) c \<Longrightarrow> in_place sel n out' c"
    and mine: "\<And>c. c < turn s \<Longrightarrow> holds sel n ?th c \<Longrightarrow>
        out_offset ?th = chunk_off sel n c \<Longrightarrow> in_place sel n out' c"
    by blast
  let ?th' = "?th\<lparr>pc := Done\<rparr>"
  let ?s' = "s\<lparr>out := out', threads := (threads s)[t := ?th']\<rparr>"
  have all: "next_chunk s = num_chunks n" using nomore D(3) by simp
  have st: "thread_step filterfn n t s = Some ?s'"
    using t pc nomore fl by (simp add: thread_step_def Let_def)
  have nth: "threads ?s' ! u = (if u = t then ?th' else threads s ! u)"
    if "u < length (threads s)" for u
    using that by (simp add: nth_list_update)
  have "team_inv sel n ?s'"
  proof (rule team_invI)
    show "length (out ?s') = n" using len by simp
    show "turn ?s' \<le> next_chunk ?s'" using D(2) by simp
    show "next_chunk ?s' \<le> num_chunks n" using D(3) by simp
    show "out_length ?s' = chunk_off sel n (turn ?s')" using D(4) by simp
  next
    fix u i assume u: "u < length (threads ?s')" and f: "pc (threads ?s' ! u) = Filled i"
    then have ul: "u < length (threads s)" and ut: "u \<noteq> t" and "pc (threads s ! u) = Filled i"
      using nth [of u] by (auto split: if_splits)
    from D(5) [OF ul this(3)]
    show "turn ?s' \<le> i \<and> i < next_chunk ?s' \<and> holds sel n (threads ?s' ! u) i"
      using ut nth [OF ul] by simp
  next
    fix u assume u: "u < length (threads ?s')" and f: "pc (threads ?s' ! u) = Idle"
    then have ul: "u < length (threads s)" and ut: "u \<noteq> t" and "pc (threads s ! u) = Idle"
      using nth [of u] by (auto split: if_splits)
    from D(6) [OF ul this(3)]
    show "buf_length (threads ?s' ! u) = 0 \<or>
        (\<exists>c < turn ?s'. holds sel n (threads ?s' ! u) c \<and>
           out_offset (threads ?s' ! u) = chunk_off sel n c)"
      using ut nth [OF ul] by simp
  next
    fix u assume "u < length (threads ?s')" "pc (threads ?s' ! u) = Done"
    show "next_chunk ?s' = num_chunks n" using all by simp
  next
    fix c assume c: "c < turn ?s'"
    then have c': "c < turn s" by simp
    from D(8) [OF c']
    show "in_place sel n (out ?s') c \<or>
        (\<exists>u < length (threads ?s'). pc (threads ?s' ! u) = Idle \<and> holds sel n (threads ?s' ! u) c \<and>
           out_offset (threads ?s' ! u) = chunk_off sel n c)"
    proof
      assume "in_place sel n (out s) c"
      then show ?thesis using keep [OF c'] by simp
    next
      assume "\<exists>u < length (threads s). pc (threads s ! u) = Idle \<and> holds sel n (threads s ! u) c \<and>
           out_offset (threads s ! u) = chunk_off sel n c"
      then obtain u where u: "u < length (threads s)" "pc (threads s ! u) = Idle"
        "holds sel n (threads s ! u) c" "out_offset (threads s ! u) = chunk_off sel n c" by blast
      show ?thesis
      proof (cases "u = t")
        case True
        then show ?thesis using mine [OF c'] u by simp
      next
        case False
        then have "pc (threads ?s' ! u) = Idle \<and> holds sel n (threads ?s' ! u) c \<and>
           out_offset (threads ?s' ! u) = chunk_off sel n c" using u nth [OF u(1)] by simp
        then show ?thesis using u(1) by auto
      qed
    qed
  next
    fix i assume i: "turn ?s' \<le> i" "i < next_chunk ?s'"
    then have "turn s \<le> i" "i < next_chunk s" by simp_all
    from D(9) [OF this] obtain u where u: "u < length (threads s)" "pc (threads s ! u) = Filled i"
      by blast
    then have "u \<noteq> t" using pc by auto
    then have "pc (threads ?s' ! u) = Filled i" using u nth [OF u(1)] by simp
    then show "\<exists>u < length (threads ?s'). pc (threads ?s' ! u) = Filled i" using u(1) by auto
  next
    fix u v i assume a: "u < length (threads ?s')" "v < length (threads ?s')"
      "pc (threads ?s' ! u) = Filled i" "pc (threads ?s' ! v) = Filled i"
    then have "u < length (threads s)" "v < length (threads s)"
      "pc (threads s ! u) = Filled i" "pc (threads s ! v) = Filled i"
      using nth [of u] nth [of v] by (auto split: if_splits)
    then show "u = v" by (rule D(10))
  qed
  moreover have "map pc (threads ?s') = (map pc (threads s))[t := Done]"
    by (simp add: map_update)
  ultimately show ?thesis using st by (intro exI [where x = ?s']) simp
qed

lemma step_inv:
  assumes inv: "team_inv sel n s" and con: "filter_contract filterfn sel n"
  shows "\<exists>s'. thread_step filterfn n t s = Some s' \<and> team_inv sel n s' \<and>
           length (threads s') = length (threads s)"
proof (cases "t < length (threads s)")
  case False
  then show ?thesis using inv by (simp add: thread_step_def)
next
  case True
  have same: "length (threads s') = length (threads s)"
    if "map pc (threads s') = (map pc (threads s))[t := p]" for s' :: team and p
    using that by (metis length_map length_list_update)
  show ?thesis
  proof (cases "pc (threads s ! t)")
    case Idle
    show ?thesis
    proof (cases "next_chunk s < num_chunks n")
      case more: True
      from step_start [OF inv True Idle more con] show ?thesis using same by blast
    next
      case False
      from step_finish [OF inv True Idle False, of filterfn] show ?thesis using same by blast
    qed
  next
    case (Filled i)
    show ?thesis
    proof (cases "i = turn s")
      case eq: True
      from step_commit [OF inv True, of filterfn] Filled eq show ?thesis using same by blast
    next
      case False
      then show ?thesis using inv True Filled by (simp add: thread_step_def Let_def)
    qed
  next
    case Done
    then show ?thesis using inv True by (simp add: thread_step_def Let_def)
  qed
qed

lemma run_inv:
  assumes "team_inv sel n s" "filter_contract filterfn sel n"
  shows "\<exists>s'. run_team filterfn n sched s = Some s' \<and> team_inv sel n s' \<and>
           length (threads s') = length (threads s)"
  using assms(1)
proof (induction sched arbitrary: s)
  case Nil
  then show ?case by simp
next
  case (Cons t ts)
  from step_inv [OF Cons.prems assms(2), of t] obtain s1 where
    s1: "thread_step filterfn n t s = Some s1" "team_inv sel n s1"
    "length (threads s1) = length (threads s)" by blast
  from Cons.IH [OF s1(2)] show ?case using s1 by auto
qed

lemma init_inv: "team_inv sel n (init_team n nthreads junk)"
  by (rule team_invI) (simp_all add: init_team_def chunk_off_def)

lemma run_append:
  "run_team filterfn n (xs @ ys) s =
     (case run_team filterfn n xs s of None \<Rightarrow> None | Some s' \<Rightarrow> run_team filterfn n ys s')"
  by (induction xs arbitrary: s) (auto split: option.splits)

lemma filter_update_count:
  "t < length xs \<Longrightarrow>
     length (filter P (xs[t := x])) + (if P (xs ! t) then 1 else 0) =
     length (filter P xs) + (if P x then 1 else 0)"
proof (induction xs arbitrary: t)
  case Nil
  then show ?case by simp
next
  case (Cons a xs)
  then show ?case by (cases t) auto
qed

lemma live_count:
  assumes "map pc (threads s') = (map pc (threads s))[t := p]" "t < length (threads s)"
  shows "length (filter (\<lambda>p. p \<noteq> Done) (map pc (threads s'))) +
           (if pc (threads s ! t) \<noteq> Done then 1 else 0) =
         length (filter (\<lambda>p. p \<noteq> Done) (map pc (threads s))) + (if p \<noteq> Done then 1 else 0)"
  using filter_update_count [of t "map pc (threads s)" "\<lambda>p. p \<noteq> Done" p] assms by simp

lemma commit_decreases:
  assumes inv: "team_inv sel n s" and t: "t < length (threads s)"
    and pc: "pc (threads s ! t) = Filled (turn s)"
  shows "\<exists>s'. thread_step filterfn n t s = Some s' \<and> team_inv sel n s' \<and>
           length (threads s') = length (threads s) \<and> work_left n s' < work_left n s"
proof -
  note D = team_invD [OF inv]
  from step_commit [OF inv t pc, of filterfn] obtain s' where
    s': "thread_step filterfn n t s = Some s'" "team_inv sel n s'"
    "map pc (threads s') = (map pc (threads s))[t := Idle]"
    "next_chunk s' = next_chunk s" "turn s' = Suc (turn s)" by blast
  have l: "length (threads s') = length (threads s)"
    using s'(3) by (metis length_map length_list_update)
  have "length (filter (\<lambda>p. p \<noteq> Done) (map pc (threads s'))) =
      length (filter (\<lambda>p. p \<noteq> Done) (map pc (threads s)))"
    using live_count [OF s'(3) t] pc by simp
  moreover have "turn s < num_chunks n" using D(5) [OF t pc] D(3) by simp
  ultimately have "work_left n s' < work_left n s"
    using s'(4,5) by (simp add: work_left_def)
  then show ?thesis using s'(1,2) l by blast
qed

lemma idle_decreases:
  assumes inv: "team_inv sel n s" and t: "t < length (threads s)"
    and pc: "pc (threads s ! t) = Idle" and con: "filter_contract filterfn sel n"
  shows "\<exists>s'. thread_step filterfn n t s = Some s' \<and> team_inv sel n s' \<and>
           length (threads s') = length (threads s) \<and> work_left n s' < work_left n s"
proof (cases "next_chunk s < num_chunks n")
  case more: True
  from step_start [OF inv t pc more con] obtain s' where
    s': "thread_step filterfn n t s = Some s'" "team_inv sel n s'"
    "map pc (threads s') = (map pc (threads s))[t := Filled (next_chunk s)]"
    "next_chunk s' = Suc (next_chunk s)" "turn s' = turn s" by blast
  have l: "length (threads s') = length (threads s)"
    using s'(3) by (metis length_map length_list_update)
  have "length (filter (\<lambda>p. p \<noteq> Done) (map pc (threads s'))) =
      length (filter (\<lambda>p. p \<noteq> Done) (map pc (threads s)))"
    using live_count [OF s'(3) t] pc by simp
  then have "work_left n s' < work_left n s"
    using s'(4,5) more by (simp add: work_left_def)
  then show ?thesis using s'(1,2) l by blast
next
  case nomore: False
  from step_finish [OF inv t pc nomore, of filterfn] obtain s' where
    s': "thread_step filterfn n t s = Some s'" "team_inv sel n s'"
    "map pc (threads s') = (map pc (threads s))[t := Done]"
    "next_chunk s' = next_chunk s" "turn s' = turn s" by blast
  have l: "length (threads s') = length (threads s)"
    using s'(3) by (metis length_map length_list_update)
  have "length (filter (\<lambda>p. p \<noteq> Done) (map pc (threads s'))) + 1 =
      length (filter (\<lambda>p. p \<noteq> Done) (map pc (threads s)))"
    using live_count [OF s'(3) t] pc by simp
  then have "work_left n s' < work_left n s"
    using s'(4,5) by (simp add: work_left_def)
  then show ?thesis using s'(1,2) l by blast
qed

text \<open>A move either leaves the state as it is or uses up some of the work that is left.\<close>

lemma step_cases:
  assumes inv: "team_inv sel n s" and con: "filter_contract filterfn sel n"
  shows "\<exists>s'. thread_step filterfn n t s = Some s' \<and> team_inv sel n s' \<and>
           length (threads s') = length (threads s) \<and>
           (s' = s \<or> work_left n s' < work_left n s)"
proof (cases "t < length (threads s)")
  case False
  then show ?thesis using inv by (simp add: thread_step_def)
next
  case True
  show ?thesis
  proof (cases "pc (threads s ! t)")
    case Idle
    from idle_decreases [OF inv True Idle con] show ?thesis by blast
  next
    case (Filled i)
    show ?thesis
    proof (cases "i = turn s")
      case eq: True
      from commit_decreases [OF inv True, of filterfn] Filled eq show ?thesis by blast
    next
      case False
      then show ?thesis using inv True Filled by (simp add: thread_step_def Let_def)
    qed
  next
    case Done
    then show ?thesis using inv True by (simp add: thread_step_def Let_def)
  qed
qed

text \<open>While the region has not ended, some thread can move.\<close>

lemma progress_step:
  assumes inv: "team_inv sel n s" and con: "filter_contract filterfn sel n"
    and nf: "\<not> finished s"
  shows "\<exists>t s'. t < length (threads s) \<and> thread_step filterfn n t s = Some s' \<and>
           team_inv sel n s' \<and> length (threads s') = length (threads s) \<and>
           work_left n s' < work_left n s"
proof -
  note D = team_invD [OF inv]
  show ?thesis
  proof (cases "turn s < next_chunk s")
    case True
    from D(9) [of "turn s"] True obtain t where t: "t < length (threads s)"
      and pc: "pc (threads s ! t) = Filled (turn s)" by auto
    from commit_decreases [OF inv t pc, of filterfn] t show ?thesis by blast
  next
    case False
    then have eq: "turn s = next_chunk s" using D(2) by simp
    from nf obtain t where t: "t < length (threads s)" and nd: "pc (threads s ! t) \<noteq> Done"
      by (auto simp: finished_def in_set_conv_nth)
    have idle: "pc (threads s ! t) = Idle"
    proof (cases "pc (threads s ! t)")
      case (Filled i)
      from D(5) [OF t Filled] have "turn s \<le> i" "i < next_chunk s" by simp_all
      then have False using eq by simp
      then show ?thesis ..
    qed (use nd in simp_all)
    from idle_decreases [OF inv t idle con] t show ?thesis by blast
  qed
qed

lemma run_completes:
  assumes con: "filter_contract filterfn sel n" and inv: "team_inv sel n s"
  shows "\<exists>ext s'. run_team filterfn n ext s = Some s' \<and> finished s'"
  using inv
proof (induction "work_left n s" arbitrary: s rule: less_induct)
  case less
  show ?case
  proof (cases "finished s")
    case True
    have "run_team filterfn n [] s = Some s" by simp
    then show ?thesis using True by blast
  next
    case False
    from progress_step [OF less.prems con False] obtain t s1 where
      s1: "thread_step filterfn n t s = Some s1" "team_inv sel n s1"
      "work_left n s1 < work_left n s" by blast
    from less.hyps [OF s1(3) s1(2)] obtain ext s' where
      e: "run_team filterfn n ext s1 = Some s'" "finished s'" by blast
    have "run_team filterfn n (t # ext) s = Some s'" using s1(1) e(1) by simp
    then show ?thesis using e(2) by blast
  qed
qed

lemma run_mono:
  assumes "team_inv sel n s" "filter_contract filterfn sel n"
  shows "\<exists>s'. run_team filterfn n sched s = Some s' \<and> team_inv sel n s' \<and>
           length (threads s') = length (threads s) \<and> work_left n s' \<le> work_left n s"
  using assms(1)
proof (induction sched arbitrary: s)
  case Nil
  then show ?case by simp
next
  case (Cons t ts)
  from step_cases [OF Cons.prems assms(2), of t] obtain s1 where
    s1: "thread_step filterfn n t s = Some s1" "team_inv sel n s1"
    "length (threads s1) = length (threads s)" "work_left n s1 \<le> work_left n s" by auto
  from Cons.IH [OF s1(2)] obtain s' where
    "run_team filterfn n ts s1 = Some s'" "team_inv sel n s'"
    "length (threads s') = length (threads s1)" "work_left n s' \<le> work_left n s1" by blast
  then show ?case using s1 by (intro exI [where x = s']) simp
qed

text \<open>A round in which a thread that can move gets a move uses up some work.\<close>

lemma round_progress:
  assumes con: "filter_contract filterfn sel n" and inv: "team_inv sel n s"
    and en: "thread_step filterfn n t s = Some s1" "work_left n s1 < work_left n s"
    and r: "t \<in> set r"
  shows "\<exists>s'. run_team filterfn n r s = Some s' \<and> team_inv sel n s' \<and>
           length (threads s') = length (threads s) \<and> work_left n s' < work_left n s"
  using r
proof (induction r)
  case Nil
  then show ?case by simp
next
  case (Cons u us)
  from step_cases [OF inv con, of u] obtain s2 where
    s2: "thread_step filterfn n u s = Some s2" "team_inv sel n s2"
    "length (threads s2) = length (threads s)" "s2 = s \<or> work_left n s2 < work_left n s" by blast
  show ?case
  proof (cases "work_left n s2 < work_left n s")
    case True
    from run_mono [OF s2(2) con, of us] obtain s' where
      "run_team filterfn n us s2 = Some s'" "team_inv sel n s'"
      "length (threads s') = length (threads s2)" "work_left n s' \<le> work_left n s2" by blast
    then show ?thesis using s2 True by (intro exI [where x = s']) simp
  next
    case False
    then have same: "s2 = s" using s2(4) by blast
    have "u \<noteq> t" using same s2(1) en by auto
    then have "t \<in> set us" using Cons.prems by simp
    from Cons.IH [OF this] show ?thesis using s2(1) same by simp
  qed
qed

lemma finished_stays: "finished s \<Longrightarrow> run_team filterfn n sched s = Some s"
proof (induction sched)
  case Nil
  then show ?case by simp
next
  case (Cons t ts)
  have "thread_step filterfn n t s = Some s"
    using Cons.prems by (cases "t < length (threads s)") (simp_all add: thread_step_def finished_def)
  then show ?case using Cons by simp
qed

lemma no_work_finished: "work_left n s = 0 \<Longrightarrow> finished s"
  by (auto simp: work_left_def finished_def filter_empty_conv)

lemma rounds_complete:
  assumes con: "filter_contract filterfn sel n"
    and inv: "team_inv sel n s"
    and fair: "\<forall>r \<in> set rounds. \<forall>t < length (threads s). t \<in> set r"
    and enough: "work_left n s \<le> length rounds"
  shows "\<exists>s'. run_team filterfn n (concat rounds) s = Some s' \<and> finished s'"
  using inv fair enough
proof (induction rounds arbitrary: s)
  case Nil
  then have "finished s" using no_work_finished by simp
  then show ?case by simp
next
  case (Cons r rs)
  show ?case
  proof (cases "finished s")
    case True
    then show ?thesis using finished_stays [OF True] by simp
  next
    case False
    from progress_step [OF Cons.prems(1) con False] obtain t s1 where
      t: "t < length (threads s)" and s1: "thread_step filterfn n t s = Some s1"
      "work_left n s1 < work_left n s" by blast
    have tr: "t \<in> set r" using Cons.prems(2) t by simp
    from round_progress [OF con Cons.prems(1) s1 tr] obtain s2 where
      s2: "run_team filterfn n r s = Some s2" "team_inv sel n s2"
      "length (threads s2) = length (threads s)" "work_left n s2 < work_left n s" by blast
    have f2: "\<forall>r \<in> set rs. \<forall>t < length (threads s2). t \<in> set r"
      using Cons.prems(2) s2(3) by simp
    have e2: "work_left n s2 \<le> length rs" using s2(4) Cons.prems(3) by simp
    from Cons.IH [OF s2(2) f2 e2] obtain s' where
      "run_team filterfn n (concat rs) s2 = Some s'" "finished s'" by blast
    then show ?thesis using s2(1) by (simp add: run_append)
  qed
qed

lemma work_left_init: "work_left n (init_team n nthreads junk) = 2 * num_chunks n + nthreads"
  by (simp add: work_left_def init_team_def)

lemma schedule_extends:
  assumes con: "filter_contract filterfn sel n"
  shows "\<exists>ext s'. run_team filterfn n (sched @ ext) (init_team n nthreads junk) = Some s' \<and> finished s'"
proof -
  from run_inv [OF init_inv [of sel n nthreads junk] con, of sched] obtain s where
    s: "run_team filterfn n sched (init_team n nthreads junk) = Some s" "team_inv sel n s" by blast
  from run_completes [OF con s(2)] obtain ext s' where
    "run_team filterfn n ext s = Some s'" "finished s'" by blast
  then show ?thesis using s(1) by (auto simp: run_append)
qed

lemma fair_schedule_completes:
  assumes con: "filter_contract filterfn sel n"
    and fair: "\<forall>r \<in> set rounds. \<forall>t < nthreads. t \<in> set r"
    and enough: "2 * num_chunks n + nthreads \<le> length rounds"
  shows "\<exists>s'. run_team filterfn n (sched @ concat rounds) (init_team n nthreads junk) = Some s' \<and>
           finished s'"
proof -
  let ?s0 = "init_team n nthreads junk"
  from run_mono [OF init_inv [of sel n nthreads junk] con, of sched] obtain s where
    s: "run_team filterfn n sched ?s0 = Some s" "team_inv sel n s"
    "length (threads s) = length (threads ?s0)" "work_left n s \<le> work_left n ?s0" by blast
  have l: "length (threads s) = nthreads" using s(3) by (simp add: init_team_def)
  have f: "\<forall>r \<in> set rounds. \<forall>t < length (threads s). t \<in> set r" using fair l by simp
  have e: "work_left n s \<le> length rounds" using s(4) enough by (simp add: work_left_init)
  from rounds_complete [OF con s(2) f e] obtain s' where
    "run_team filterfn n (concat rounds) s = Some s'" "finished s'" by blast
  then show ?thesis using s(1) by (auto simp: run_append)
qed

lemma finished_in_place:
  assumes inv: "team_inv sel n s" and fin: "finished s" and T: "0 < length (threads s)"
  shows "turn s = num_chunks n" and "\<forall>c < num_chunks n. in_place sel n (out s) c"
proof -
  note D = team_invD [OF inv]
  have dn: "pc (threads s ! t) = Done" if "t < length (threads s)" for t
    using fin that by (simp add: finished_def)
  have nc: "next_chunk s = num_chunks n" using D(7) [OF T dn [OF T]] .
  have "\<not> turn s < next_chunk s"
  proof
    assume "turn s < next_chunk s"
    with D(9) [of "turn s"] obtain t where "t < length (threads s)" "pc (threads s ! t) = Filled (turn s)"
      by auto
    then show False using dn by simp
  qed
  then show tn: "turn s = num_chunks n" using D(2) nc by simp
  show "\<forall>c < num_chunks n. in_place sel n (out s) c"
  proof (intro allI impI)
    fix c assume "c < num_chunks n"
    then have "c < turn s" using tn by simp
    from D(8) [OF this] show "in_place sel n (out s) c" using dn by auto
  qed
qed

lemma in_place_take:
  assumes "\<forall>c < k. in_place sel n dst c" "chunk_off sel n k \<le> length dst"
  shows "take (chunk_off sel n k) dst = map of_nat (concat (map (chunk_rows sel n) [0..<k]))"
  using assms
proof (induction k)
  case 0
  then show ?case by (simp add: chunk_off_def)
next
  case (Suc k)
  let ?m = "length (chunk_rows sel n k)"
  have le: "chunk_off sel n k + ?m \<le> length dst" using Suc.prems(2) by (simp add: chunk_off_Suc)
  have ip: "in_place sel n dst k" using Suc.prems(1) by simp
  have "take ?m (drop (chunk_off sel n k) dst) = map of_nat (chunk_rows sel n k)"
    using le ip by (auto simp: list_eq_iff_nth_eq in_place_def)
  moreover have "take (chunk_off sel n k) dst = map of_nat (concat (map (chunk_rows sel n) [0..<k]))"
    using Suc le by simp
  ultimately show ?case by (simp add: chunk_off_Suc take_add)
qed

lemma finished_out:
  assumes inv: "team_inv sel n s" and fin: "finished s" and T: "0 < length (threads s)"
  shows "out_length s = length (filter sel [0..<n])"
    and "take (out_length s) (out s) = map of_nat (filter sel [0..<n])"
proof -
  note D = team_invD [OF inv]
  have tn: "turn s = num_chunks n" and ip: "\<forall>c < num_chunks n. in_place sel n (out s) c"
    using finished_in_place [OF inv fin T] by simp_all
  have ol: "out_length s = chunk_off sel n (num_chunks n)" using D(4) tn by simp
  then show "out_length s = length (filter sel [0..<n])"
    by (simp only: chunk_off_def all_chunk_rows)
  have "chunk_off sel n (num_chunks n) \<le> length (out s)" using chunk_off_total [of sel n] D(1) by simp
  from in_place_take [OF ip this] show "take (out_length s) (out s) = map of_nat (filter sel [0..<n])"
    using ol by (simp only: all_chunk_rows)
qed

lemma sint_row32:
  assumes "int r < 2 ^ 31"
  shows "sint (scast (of_nat r :: int32_t) :: int64_t) = int r"
proof -
  have "sint (word_of_int (int r) :: int32_t) = int r"
    using assms by (simp only: sint_sbintrunc') (simp add: signed_take_bit_int_eq_self)
  then show ?thesis by (simp add: sint_scast32)
qed

lemma sorted_selected: "sorted_wrt (<) (map int (filter sel [0..<n]))"
proof -
  have "sorted_wrt (<) (filter sel [0..<n])" by (intro sorted_wrt_filter) simp
  then show ?thesis by (simp add: sorted_wrt_map)
qed

lemma filterfn32_unfold:
  assumes "\<not> INT32_MAX <s nrows"
    and "run_team filterfn (nat (sint nrows)) sched (init_team (nat (sint nrows)) nthreads junk) = Some s"
    and "finished s"
    and "out_length s \<noteq> 0 \<Longrightarrow> at_list (out s) 0 = Some a \<and> at_list (out s) (int (out_length s) - 1) = Some b"
    and "out_length s = 0 \<Longrightarrow> a = 0 \<and> b = 0"
  shows "rowindex_from_filterfn32 h filterfn nrows nthreads sched junk =
     Return (Ptr (length (hdrs h)),
       h\<lparr>bufs := bufs h @ [Ind32 (take (out_length s) (out s))],
         hdrs := hdrs h @ [\<lparr>type_ri = RI_ARR32, length_ri = of_nat (out_length s),
            min_ri = scast a, max_ri = scast b, payload = Ind (Ptr (length (bufs h)))\<rparr>]\<rparr>)"
  using assms
  by (cases "out_length s = 0")
    (simp_all add: rowindex_from_filterfn32_def alloc_buf_def alloc_hdr_def)

lemma filterfn32_result:
  assumes big: "nrows \<le>s INT32_MAX" and nn: "0 \<le> sint nrows"
    and con: "filter_contract filterfn sel (nat (sint nrows))" and T: "0 < nthreads"
    and run: "run_team filterfn (nat (sint nrows)) sched (init_team (nat (sint nrows)) nthreads junk) = Some s"
    and fin: "finished s"
  shows "\<exists>p h' R js. rowindex_from_filterfn32 h filterfn nrows nthreads sched junk = Return (p, h') \<and>
      get_hdr h' p = Some R \<and> type_ri R = RI_ARR32 \<and> elems h' R = Some js \<and>
      map sint js = map int (filter sel [0..<nat (sint nrows)])"
proof -
  let ?n = "nat (sint nrows)"
  let ?sel = "filter sel [0..<?n]"
  let ?m = "out_length s"
  have nb: "int ?n < 2 ^ 31" using big nn by (simp add: word_sle_eq sint_INT32_MAX)
  from run_inv [OF init_inv [of sel ?n nthreads junk] con, of sched] run
  have inv: "team_inv sel ?n s" and Tl: "length (threads s) = nthreads"
    by (auto simp: init_team_def)
  have T': "0 < length (threads s)" using T Tl by simp
  have m: "?m = length ?sel" and tk: "take ?m (out s) = map of_nat ?sel"
    using finished_out [OF inv fin T'] by simp_all
  have lo: "length (out s) = ?n" using team_invD(1) [OF inv] .
  have mn: "?m \<le> ?n" using m length_filter_le [of sel "[0..<?n]"] by simp
  obtain a b where ab: "?m \<noteq> 0 \<Longrightarrow> at_list (out s) 0 = Some a \<and> at_list (out s) (int ?m - 1) = Some b"
    "?m = 0 \<Longrightarrow> a = 0 \<and> b = 0"
  proof (cases "?m = 0")
    case True
    then show ?thesis using that [of 0 0] by simp
  next
    case False
    then have "at_list (out s) 0 = Some (out s ! 0) \<and>
        at_list (out s) (int ?m - 1) = Some (out s ! nat (int ?m - 1))"
      using mn lo nn by (auto simp: at_list_def)
    then show ?thesis using that False by blast
  qed
  let ?R = "\<lparr>type_ri = RI_ARR32, length_ri = of_nat ?m, min_ri = scast a, max_ri = scast b,
      payload = Ind (Ptr (length (bufs h)))\<rparr>"
  let ?h' = "h\<lparr>bufs := bufs h @ [Ind32 (take ?m (out s))], hdrs := hdrs h @ [?R]\<rparr>"
  have nbig: "\<not> INT32_MAX <s nrows" using big by (simp add: word_sle_eq word_sless_alt)
  have r: "rowindex_from_filterfn32 h filterfn nrows nthreads sched junk =
      Return (Ptr (length (hdrs h)), ?h')"
    by (rule filterfn32_unfold [OF nbig run fin ab])
  have g: "get_hdr ?h' (Ptr (length (hdrs h))) = Some ?R" by (simp add: get_hdr_def)
  have "int ?m \<le> int ?n" using mn by (simp only: of_nat_le_iff)
  moreover have "(2 :: int) ^ 31 < 2 ^ 63" by simp
  ultimately have "int ?m < 2 ^ 63" using nb by linarith
  then have "sint (word_of_int (int ?m) :: int64_t) = int ?m"
    by (intro sint_of_int64) simp_all
  then have lm: "nat (sint (length_ri ?R)) = ?m" by simp
  have gb: "get_buf ?h' (payload ?R) = Some (Ind32 (take ?m (out s)))" by (simp add: get_buf_def)
  have "elems ?h' ?R = Some (map scast (take (nat (sint (length_ri ?R))) (take ?m (out s))))"
    using elems_ARR32 [OF _ gb] lm mn lo by simp
  then have e: "elems ?h' ?R = Some (map scast (map of_nat ?sel :: int32_t list))"
    using lm tk m by simp
  have "sint (scast (of_nat r :: int32_t) :: int64_t) = int r" if "r \<in> set ?sel" for r
  proof -
    have "r < ?n" using that by simp
    then have "int r < 2 ^ 31" using nb by linarith
    then show ?thesis by (rule sint_row32)
  qed
  then have "map sint (map scast (map of_nat ?sel :: int32_t list) :: int64_t list) = map int ?sel"
    by simp
  then show ?thesis using r g e
    by (intro exI [where x = "Ptr (length (hdrs h))"] exI [where x = ?h'] exI [where x = ?R]
        exI [where x = "map scast (map of_nat ?sel :: int32_t list)"]) simp
qed

text \<open>
  C5. For \<open>nrows\<close> above \<open>INT32_MAX\<close> the function returns \<open>NULL\<close>. For
  \<open>0 \<le> nrows \<le> INT32_MAX\<close>, a team of at least one thread and a callback that
  keeps its contract for the predicate \<open>sel\<close>: no schedule leads to an access out
  of bounds; every schedule can be continued so that the function returns; the function
  returns under every continuation made of enough rounds in each of which every thread
  gets a move; and whenever the function returns, under any schedule, the result is an
  ARR32 whose elements are exactly the selected rows of \<open>[0, nrows)\<close> in ascending
  order: they are strictly ascending, and \<open>r\<close> is among them if and only if
  \<open>r < nrows\<close> and \<open>sel r\<close>.
\<close>

theorem filterfn32_builder:
  "(INT32_MAX <s nrows \<longrightarrow>
      rowindex_from_filterfn32 h filterfn nrows nthreads sched junk = Return (NULL, h)) \<and>
   (0 \<le> sint nrows \<and> nrows \<le>s INT32_MAX \<and> 0 < nthreads \<and>
    filter_contract filterfn sel (nat (sint nrows)) \<longrightarrow>
      rowindex_from_filterfn32 h filterfn nrows nthreads sched junk \<noteq> Fault \<and>
      (\<exists>ext res. rowindex_from_filterfn32 h filterfn nrows nthreads (sched @ ext) junk = Return res) \<and>
      (\<forall>rounds. 2 * num_chunks (nat (sint nrows)) + nthreads \<le> length rounds \<and>
           (\<forall>r \<in> set rounds. \<forall>t < nthreads. t \<in> set r) \<longrightarrow>
         (\<exists>res. rowindex_from_filterfn32 h filterfn nrows nthreads (sched @ concat rounds) junk =
            Return res)) \<and>
      (\<forall>sc p h'. rowindex_from_filterfn32 h filterfn nrows nthreads sc junk = Return (p, h') \<longrightarrow>
         (\<exists>R js. get_hdr h' p = Some R \<and> type_ri R = RI_ARR32 \<and> elems h' R = Some js \<and>
            map sint js = map int (filter sel [0..<nat (sint nrows)]) \<and>
            sorted_wrt (<) (map sint js) \<and>
            (\<forall>r. int r \<in> set (map sint js) \<longleftrightarrow> r < nat (sint nrows) \<and> sel r))))"
proof (intro conjI impI)
  assume "INT32_MAX <s nrows"
  then show "rowindex_from_filterfn32 h filterfn nrows nthreads sched junk = Return (NULL, h)"
    by (simp add: rowindex_from_filterfn32_def)
next
  assume a: "0 \<le> sint nrows \<and> nrows \<le>s INT32_MAX \<and> 0 < nthreads \<and>
    filter_contract filterfn sel (nat (sint nrows))"
  let ?n = "nat (sint nrows)"
  let ?s0 = "init_team ?n nthreads junk"
  have nn: "0 \<le> sint nrows" and big: "nrows \<le>s INT32_MAX" and T: "0 < nthreads"
    and con: "filter_contract filterfn sel ?n" using a by simp_all
  have res: "\<exists>p h' R js. rowindex_from_filterfn32 h filterfn nrows nthreads sc junk = Return (p, h') \<and>
      get_hdr h' p = Some R \<and> type_ri R = RI_ARR32 \<and> elems h' R = Some js \<and>
      map sint js = map int (filter sel [0..<?n])"
    if "run_team filterfn ?n sc ?s0 = Some s" "finished s" for sc s
    using filterfn32_result [OF big nn con T that] .
  show "rowindex_from_filterfn32 h filterfn nrows nthreads sched junk \<noteq> Fault"
  proof -
    from run_inv [OF init_inv [of sel ?n nthreads junk] con, of sched] obtain s where
      s: "run_team filterfn ?n sched ?s0 = Some s" by blast
    show ?thesis
    proof (cases "finished s")
      case True
      from res [OF s True] show ?thesis by auto
    next
      case False
      then have "rowindex_from_filterfn32 h filterfn nrows nthreads sched junk = Unfinished"
        using s big by (simp add: rowindex_from_filterfn32_def word_sle_eq word_sless_alt)
      then show ?thesis by simp
    qed
  qed
  show "\<exists>ext res. rowindex_from_filterfn32 h filterfn nrows nthreads (sched @ ext) junk = Return res"
  proof -
    from schedule_extends [OF con, of sched nthreads junk] obtain ext s where
      "run_team filterfn ?n (sched @ ext) ?s0 = Some s" "finished s" by blast
    from res [OF this] show ?thesis by blast
  qed
  show "\<forall>rounds. 2 * num_chunks ?n + nthreads \<le> length rounds \<and>
           (\<forall>r \<in> set rounds. \<forall>t < nthreads. t \<in> set r) \<longrightarrow>
         (\<exists>res. rowindex_from_filterfn32 h filterfn nrows nthreads (sched @ concat rounds) junk =
            Return res)"
  proof (intro allI impI)
    fix rounds :: "nat list list"
    assume r: "2 * num_chunks ?n + nthreads \<le> length rounds \<and>
           (\<forall>r \<in> set rounds. \<forall>t < nthreads. t \<in> set r)"
    then have fair: "\<forall>r \<in> set rounds. \<forall>t < nthreads. t \<in> set r"
      and enough: "2 * num_chunks ?n + nthreads \<le> length rounds" by simp_all
    from fair_schedule_completes [OF con fair enough, of sched junk] obtain s where
      "run_team filterfn ?n (sched @ concat rounds) ?s0 = Some s" "finished s" by blast
    from res [OF this]
    show "\<exists>res. rowindex_from_filterfn32 h filterfn nrows nthreads (sched @ concat rounds) junk =
            Return res" by blast
  qed
  show "\<forall>sc p h'. rowindex_from_filterfn32 h filterfn nrows nthreads sc junk = Return (p, h') \<longrightarrow>
         (\<exists>R js. get_hdr h' p = Some R \<and> type_ri R = RI_ARR32 \<and> elems h' R = Some js \<and>
            map sint js = map int (filter sel [0..<?n]) \<and>
            sorted_wrt (<) (map sint js) \<and>
            (\<forall>r. int r \<in> set (map sint js) \<longleftrightarrow> r < ?n \<and> sel r))"
  proof (intro allI impI)
    fix sc p h' assume ret: "rowindex_from_filterfn32 h filterfn nrows nthreads sc junk = Return (p, h')"
    from run_inv [OF init_inv [of sel ?n nthreads junk] con, of sc] obtain s where
      s: "run_team filterfn ?n sc ?s0 = Some s" by blast
    have fin: "finished s"
    proof (rule ccontr)
      assume "\<not> finished s"
      then have "rowindex_from_filterfn32 h filterfn nrows nthreads sc junk = Unfinished"
        using s big by (simp add: rowindex_from_filterfn32_def word_sle_eq word_sless_alt)
      then show False using ret by simp
    qed
    from res [OF s fin] ret obtain R js where
      R: "get_hdr h' p = Some R" "type_ri R = RI_ARR32" "elems h' R = Some js"
      "map sint js = map int (filter sel [0..<?n])" by auto
    have "sorted_wrt (<) (map sint js)" unfolding R(4) by (rule sorted_selected)
    moreover have "\<forall>r. int r \<in> set (map sint js) \<longleftrightarrow> r < ?n \<and> sel r"
      unfolding R(4) by auto
    ultimately show "\<exists>R js. get_hdr h' p = Some R \<and> type_ri R = RI_ARR32 \<and> elems h' R = Some js \<and>
            map sint js = map int (filter sel [0..<?n]) \<and>
            sorted_wrt (<) (map sint js) \<and>
            (\<forall>r. int r \<in> set (map sint js) \<longleftrightarrow> r < ?n \<and> sel r)"
      using R by blast
  qed
qed

lemma num_chunks_6: "num_chunks 6 = 1"
  by (simp add: num_chunks_def rows_per_chunk_def)

lemma upt_0_6: "[0..<6] = [0, 1, 2, 3, 4, 5]"
  by code_simp

lemma odd_rows_0_6: "odd_rows 0 6 = ([1, 3, 5], 3)"
  by (simp add: odd_rows_def upt_0_6)

lemma init_team_6_2: "init_team 6 2 7 = \<lparr>out = [7, 7, 7, 7, 7, 7], out_length = 0, next_chunk = 0, turn = 0,
      threads = [\<lparr>buf = [], buf_length = 0, out_offset = 0, pc = Idle\<rparr>,
                 \<lparr>buf = [], buf_length = 0, out_offset = 0, pc = Idle\<rparr>]\<rparr>"
  by code_simp

lemma size_of_3: "size_of 3 = 3"
  by (simp add: size_of_def)

lemma run_team_odd_6: "run_team odd_rows 6 [1, 0, 1, 1, 0] (init_team 6 2 7) = Some
   \<lparr>out = [1, 3, 5, 7, 7, 7], out_length = 3, next_chunk = 1, turn = 1,
      threads = [\<lparr>buf = [], buf_length = 0, out_offset = 0, pc = Done\<rparr>,
                 \<lparr>buf = [1, 3, 5], buf_length = 3, out_offset = 0, pc = Done\<rparr>]\<rparr>"
  by (simp add: init_team_6_2 thread_step_def num_chunks_6 flush_def memcpy_out_def Let_def odd_rows_0_6 rows_per_chunk_def size_of_3)

lemma odd_rows_contract: "filter_contract odd_rows odd n"
  by (simp add: filter_contract_def odd_rows_def selected_def)

lemma filterfn32_odd_6: "rowindex_from_filterfn32 \<lparr>hdrs = [], bufs = []\<rparr> odd_rows 6 2 [1, 0, 1, 1, 0] 7 =
    Return (Ptr 0, \<lparr>hdrs = [\<lparr>type_ri = RI_ARR32, length_ri = 3, min_ri = 1, max_ri = 5,
      payload = Ind (Ptr 0)\<rparr>], bufs = [Ind32 [1, 3, 5]]\<rparr>)"
proof -
  have b: "\<not> INT32_MAX <s (6 :: int64_t)" by (simp add: INT32_MAX_def word_sless_alt)
  have n: "nat (sint (6 :: int64_t)) = 6" by simp
  show ?thesis
    unfolding rowindex_from_filterfn32_def
    by (simp only: b n if_False run_team_odd_6 option.case)
      (simp add: finished_def at_list_def alloc_buf_def alloc_hdr_def)
qed

lemma run_team_odd_6_cut: "run_team odd_rows 6 [1, 0] (init_team 6 2 7) = Some
   \<lparr>out = [7, 7, 7, 7, 7, 7], out_length = 0, next_chunk = 1, turn = 0,
      threads = [\<lparr>buf = [], buf_length = 0, out_offset = 0, pc = Done\<rparr>,
                 \<lparr>buf = [1, 3, 5], buf_length = 3, out_offset = 0, pc = Filled 0\<rparr>]\<rparr>"
  by (simp add: init_team_6_2 thread_step_def num_chunks_6 flush_def memcpy_out_def Let_def odd_rows_0_6 rows_per_chunk_def size_of_3)

lemma filterfn32_odd_6_cut:
  "rowindex_from_filterfn32 \<lparr>hdrs = [], bufs = []\<rparr> odd_rows 6 2 [1, 0] 7 = Unfinished"
proof -
  have b: "\<not> INT32_MAX <s (6 :: int64_t)" by (simp add: INT32_MAX_def word_sless_alt)
  have n: "nat (sint (6 :: int64_t)) = 6" by simp
  show ?thesis
    unfolding rowindex_from_filterfn32_def
    by (simp only: b n if_False run_team_odd_6_cut option.case) (simp add: finished_def)
qed

theorem filterfn32_builder_witness:
  "rowindex_from_filterfn32 \<lparr>hdrs = [], bufs = []\<rparr> odd_rows 2147483648 2 [] 7 =
     Return (NULL, \<lparr>hdrs = [], bufs = []\<rparr>) \<and>
   (\<exists>h' R js. rowindex_from_filterfn32 \<lparr>hdrs = [], bufs = []\<rparr> odd_rows 6 2 [1, 0, 1, 1, 0] 7 =
        Return (Ptr 0, h') \<and>
      get_hdr h' (Ptr 0) = Some R \<and> type_ri R = RI_ARR32 \<and> elems h' R = Some js \<and>
      map sint js = [1, 3, 5]) \<and>
   rowindex_from_filterfn32 \<lparr>hdrs = [], bufs = []\<rparr> odd_rows 6 2 [1, 0] 7 = Unfinished \<and>
   (\<exists>ext res. rowindex_from_filterfn32 \<lparr>hdrs = [], bufs = []\<rparr> odd_rows 6 2 ([1, 0] @ ext) 7 =
      Return res) \<and>
   (\<exists>res. rowindex_from_filterfn32 \<lparr>hdrs = [], bufs = []\<rparr> odd_rows 6 2
      ([1, 0] @ concat (replicate 4 [0, 1])) 7 = Return res)"
proof -
  let ?h = "\<lparr>hdrs = [], bufs = []\<rparr>"
  let ?h' = "\<lparr>hdrs = [\<lparr>type_ri = RI_ARR32, length_ri = 3, min_ri = 1, max_ri = 5,
      payload = Ind (Ptr 0)\<rparr>], bufs = [Ind32 [1, 3, 5]]\<rparr>"
  have big: "INT32_MAX <s (2147483648 :: int64_t)" by (simp add: INT32_MAX_def word_sless_alt)
  have small: "0 \<le> sint (6 :: int64_t) \<and> (6 :: int64_t) \<le>s INT32_MAX \<and> 0 < (2 :: nat) \<and>
      filter_contract odd_rows odd (nat (sint (6 :: int64_t)))"
    using odd_rows_contract by (simp add: word_sle_eq INT32_MAX_def)
  have sel: "map int (filter odd [0..<nat (sint (6 :: int64_t))]) = [1, 3, 5]"
    by (simp add: upt_0_6)
  have rounds: "2 * num_chunks (nat (sint (6 :: int64_t))) + 2 \<le> length (replicate 4 [0, 1 :: nat]) \<and>
      (\<forall>r \<in> set (replicate 4 [0, 1 :: nat]). \<forall>t < 2. t \<in> set r)"
    by (auto simp: num_chunks_6)
  from filterfn32_builder [of 2147483648 ?h odd_rows 2 "[]" 7 odd] big
  have a: "rowindex_from_filterfn32 ?h odd_rows 2147483648 2 [] 7 = Return (NULL, ?h)" by blast
  from filterfn32_builder [of 6 ?h odd_rows 2 "[1, 0, 1, 1, 0]" 7 odd] small filterfn32_odd_6
  have "\<exists>R js. get_hdr ?h' (Ptr 0) = Some R \<and> type_ri R = RI_ARR32 \<and> elems ?h' R = Some js \<and>
      map sint js = map int (filter odd [0..<nat (sint (6 :: int64_t))])"
    by blast
  then obtain R js where "get_hdr ?h' (Ptr 0) = Some R" "type_ri R = RI_ARR32"
    "elems ?h' R = Some js" "map sint js = [1, 3, 5]" using sel by auto
  then have b: "\<exists>h' R js. rowindex_from_filterfn32 ?h odd_rows 6 2 [1, 0, 1, 1, 0] 7 =
        Return (Ptr 0, h') \<and>
      get_hdr h' (Ptr 0) = Some R \<and> type_ri R = RI_ARR32 \<and> elems h' R = Some js \<and>
      map sint js = [1, 3, 5]"
    using filterfn32_odd_6 by (intro exI [where x = ?h'] exI [where x = R] exI [where x = js]) simp
  from filterfn32_builder [of 6 ?h odd_rows 2 "[1, 0]" 7 odd] small
  have c: "\<exists>ext res. rowindex_from_filterfn32 ?h odd_rows 6 2 ([1, 0] @ ext) 7 = Return res"
    by blast
  from filterfn32_builder [of 6 ?h odd_rows 2 "[1, 0]" 7 odd] small rounds
  have d: "\<exists>res. rowindex_from_filterfn32 ?h odd_rows 6 2
      ([1, 0] @ concat (replicate 4 [0, 1])) 7 = Return res"
    by blast
  show ?thesis using a b filterfn32_odd_6_cut c d by (intro conjI)
qed

end
